theory Spec2Isabelle
  imports Complex_Main "HOL-Library.AList"
begin

section \<open>Python values used by the batch iterator\<close>

text \<open>
  The mini-batch iterator of \<^verbatim>\<open>fastNLP/core/batch.py\<close> is embedded as functions on an explicit
  iterator state. Python's unbounded integers are \<^typ>\<open>int\<close>; a \<^verbatim>\<open>dict\<close> is an association
  list in insertion order with pairwise distinct keys, read with \<^const>\<open>map_of\<close> and written with
  \<^const>\<open>AList.update\<close> (which replaces in place or appends, as a Python dict does); every
  \<^verbatim>\<open>raise\<close> is a value \<open>Inl e\<close>.
\<close>

datatype error =
  StopIteration | TypeError | AttributeError | ValueError | IndexError | KeyError | RuntimeError

type_synonym ('k, 'v) dict = "('k \<times> 'v) list"

text \<open>Clipping of one slice bound against a sequence of length \<open>n\<close> (negative bounds count from the end).\<close>

definition slice_bound :: "int \<Rightarrow> nat \<Rightarrow> nat" where
  "slice_bound i n = (if i < 0 then nat (int n + i) else min (nat i) n)"

text \<open>\<^verbatim>\<open>xs[i:j]\<close>\<close>

definition py_slice :: "'a list \<Rightarrow> int \<Rightarrow> int \<Rightarrow> 'a list" where
  "py_slice xs i j =
     (let a = slice_bound i (length xs); b = slice_bound j (length xs)
      in take (b - a) (drop a xs))"

text \<open>\<^verbatim>\<open>xs[i]\<close>: a position from the front, or a negative one from the back, or an \<^verbatim>\<open>IndexError\<close>.\<close>

definition py_getitem :: "'a list \<Rightarrow> int \<Rightarrow> error + 'a" where
  "py_getitem xs i =
     (if 0 \<le> i \<and> i < int (length xs) then Inr (xs ! nat i)
      else if i < 0 \<and> - int (length xs) \<le> i then Inr (xs ! nat (int (length xs) + i))
      else Inl IndexError)"

text \<open>\<^verbatim>\<open>range(a, b)\<close>\<close>

definition py_range :: "int \<Rightarrow> int \<Rightarrow> int list" where
  "py_range a b = [a..b - 1]"

text \<open>\<^verbatim>\<open>max(xs)\<close>, which raises \<^verbatim>\<open>ValueError\<close> on an empty sequence.\<close>

fun py_max :: "nat list \<Rightarrow> error + nat" where
  "py_max [] = Inl ValueError"
| "py_max (x # xs) = Inr (fold max xs x)"

text \<open>\<^verbatim>\<open>d[name].append(t)\<close> on a \<^verbatim>\<open>defaultdict(list)\<close>.\<close>

definition dd_append :: "('k, 'v list) dict \<Rightarrow> 'k \<Rightarrow> 'v \<Rightarrow> ('k, 'v list) dict" where
  "dd_append d name t =
     AList.update name ((case map_of d name of None \<Rightarrow> [] | Some l \<Rightarrow> l) @ [t]) d"

text \<open>\<^verbatim>\<open>d.update(e)\<close>\<close>

definition dict_update :: "('k, 'v) dict \<Rightarrow> ('k, 'v) dict \<Rightarrow> ('k, 'v) dict" where
  "dict_update d e = fold (\<lambda>(k, v). AList.update k v) e d"

section \<open>Tensors\<close>

text \<open>
  A single-instance tensor is a one-dimensional \<^verbatim>\<open>LongTensor\<close> on the host, an \<^typ>\<open>int list\<close>.
  The tensors of a batch carry their device: a \<open>Matrix\<close> is a stack of equally long rows, a
  \<open>Vector\<close> is the one-dimensional tensor of original lengths.
\<close>

datatype device = CPU | CUDA

datatype tensor = Vector device "int list" | Matrix device "int list list"

definition placement :: "bool \<Rightarrow> device" where
  "placement use_cuda = (if use_cuda then CUDA else CPU)"

text \<open>\<^verbatim>\<open>torch.stack(tensor_list, dim=0)\<close>: the tensors must be of one shape, and there must be one.\<close>

definition torch_stack :: "int list list \<Rightarrow> error + int list list" where
  "torch_stack ts =
     (case ts of
        [] \<Rightarrow> Inl RuntimeError
      | t # _ \<Rightarrow> if list_all (\<lambda>u. length u = length t) ts then Inr ts else Inl RuntimeError)"

section \<open>The dataset (external collaborator)\<close>

text \<open>
  \<^verbatim>\<open>fastNLP.core.dataset\<close>, \<^verbatim>\<open>fastNLP.core.instance\<close> and \<^verbatim>\<open>fastNLP.core.field\<close> are imported by
  \<^verbatim>\<open>batch.py\<close> but are not part of the sources at hand. The definitions of this section are
  modelled from the specification's data model and dataset contract.
\<close>

text \<open>Modelled from the spec: a Field, "a named, typed slot within an instance (e.g., token
  sequence, label), tagged as input or target". A label is a sequence of one index.\<close>

datatype field = Field (is_target: bool) (content: "int list")

text \<open>Modelled from the spec: an Instance, "a mapping from field name to a field value".\<close>

type_synonym inst = "(string, field) dict"

text \<open>Modelled from the spec: a Dataset, "an ordered sequence of Instances".\<close>

type_synonym dataset = "inst list"

text \<open>Modelled from the spec: the "origin length", "the true, pre-padding length of a sequence
  field for one instance".\<close>

definition origin_length :: "field \<Rightarrow> nat" where
  "origin_length f = length (content f)"

text \<open>Modelled from the spec: the sequence that \<^verbatim>\<open>DataSet.get_length\<close> "exposes, per field name,
  an ordered sequence of per-instance sequence lengths", over the instances that have the field.\<close>

definition field_lengths :: "dataset \<Rightarrow> string \<Rightarrow> nat list" where
  "field_lengths ds name =
     concat (map (\<lambda>ins. map (\<lambda>(n, f). origin_length f) (filter (\<lambda>(n, f). n = name) ins)) ds)"

text \<open>Modelled from the spec: \<^verbatim>\<open>DataSet.get_length() -> mapping(field_name -> ordered sequence
  of per-instance lengths)\<close>, with one entry for every field name that occurs in the dataset.\<close>

definition get_length :: "dataset \<Rightarrow> (string, nat list) dict" where
  "get_length ds =
     map (\<lambda>name. (name, field_lengths ds name)) (remdups (concat (map (map fst) ds)))"

text \<open>Modelled from the spec: the rendering of one field at a padding length, "the target length
  to which a variable-length sequence field is extended (with a filler value) or truncated".
  The filler is 0, as in the example of the docstring of \<^verbatim>\<open>Batch.__next__\<close>.\<close>

definition pad_to :: "nat \<Rightarrow> int list \<Rightarrow> int list" where
  "pad_to p xs = take p xs @ replicate (p - length xs) 0"

text \<open>Modelled from the spec: the conversion of one instance, which returns the input-tagged and
  the target-tagged fields as two mappings "from field name to a single-instance tensor padded to
  the requested length". A field without a requested padding length is a \<^verbatim>\<open>KeyError\<close>.\<close>

fun instance_to_tensor ::
  "inst \<Rightarrow> (string, nat) dict \<Rightarrow> error + ((string, int list) dict \<times> (string, int list) dict)"
where
  "instance_to_tensor [] pl = Inr ([], [])"
| "instance_to_tensor ((name, f) # fs) pl =
     (case map_of pl name of
        None \<Rightarrow> Inl KeyError
      | Some p \<Rightarrow>
          (case instance_to_tensor fs pl of
             Inl e \<Rightarrow> Inl e
           | Inr (x, y) \<Rightarrow>
               if is_target f then Inr (x, (name, pad_to p (content f)) # y)
               else Inr ((name, pad_to p (content f)) # x, y)))"

text \<open>Modelled from the spec: \<^verbatim>\<open>DataSet.to_tensor(index, padding_length_by_field)\<close>, the
  "per-index conversion operation".\<close>

definition to_tensor ::
  "dataset \<Rightarrow> int \<Rightarrow> (string, nat) dict \<Rightarrow>
     error + ((string, int list) dict \<times> (string, int list) dict)"
where
  "to_tensor ds idx pl =
     (case py_getitem ds idx of Inl e \<Rightarrow> Inl e | Inr ins \<Rightarrow> instance_to_tensor ins pl)"

section \<open>The batch iterator\<close>

text \<open>
  The object built by \<^verbatim>\<open>Batch.__init__\<close>. The sampler is any callable; a randomised one is a
  function of a sampler state that it returns updated. The attribute \<^verbatim>\<open>lengths\<close> does not exist
  before the first \<^verbatim>\<open>__iter__\<close>, and \<^verbatim>\<open>idx_list\<close> is \<^verbatim>\<open>None\<close> until then.
\<close>

record 's batch =
  dataset :: dataset
  batch_size :: int
  sampler :: "'s \<Rightarrow> dataset \<Rightarrow> int list \<times> 's"
  sampler_state :: 's
  use_cuda :: bool
  idx_list :: "int list option"
  curidx :: int
  lengths :: "(string, nat list) dict option"

type_synonym minibatch = "(string, tensor) dict \<times> (string, tensor) dict"

definition Batch_init ::
  "dataset \<Rightarrow> int \<Rightarrow> ('s \<Rightarrow> dataset \<Rightarrow> int list \<times> 's) \<Rightarrow> 's \<Rightarrow> bool \<Rightarrow> 's batch"
where
  "Batch_init ds bs smp s0 cuda =
     \<lparr>dataset = ds, batch_size = bs, sampler = smp, sampler_state = s0, use_cuda = cuda,
      idx_list = None, curidx = 0, lengths = None\<rparr>"

text \<open>\<^verbatim>\<open>Batch.__iter__\<close> (lines 26 to 30).\<close>

definition Batch_iter :: "'s batch \<Rightarrow> 's batch" where
  "Batch_iter st =
     (let (il, s') = sampler st (sampler_state st) (dataset st)
      in st\<lparr>idx_list := Some il, sampler_state := s', curidx := 0,
            lengths := Some (get_length (dataset st))\<rparr>)"

text \<open>Lines 51 and 52: the padding length of every field, over the slice.\<close>

fun padding_length_of :: "(string, nat list) dict \<Rightarrow> int \<Rightarrow> int \<Rightarrow> error + (string, nat) dict" where
  "padding_length_of [] c e = Inr []"
| "padding_length_of ((field_name, field_length) # rest) c e =
     (case py_max (py_slice field_length c e) of
        Inl err \<Rightarrow> Inl err
      | Inr m \<Rightarrow>
          (case padding_length_of rest c e of
             Inl err \<Rightarrow> Inl err
           | Inr d \<Rightarrow> Inr ((field_name, m) # d)))"

text \<open>Lines 53 and 54: the original lengths of every field, over the slice.\<close>

definition origin_lengths_of :: "(string, nat list) dict \<Rightarrow> int \<Rightarrow> int \<Rightarrow> (string, nat list) dict" where
  "origin_lengths_of ls c e = map (\<lambda>(field_name, field_length). (field_name, py_slice field_length c e)) ls"

text \<open>Lines 59 to 62: the tensors of one instance are appended to the lists of their fields.\<close>

fun append_items :: "('k, 'v list) dict \<Rightarrow> ('k, 'v) dict \<Rightarrow> ('k, 'v list) dict" where
  "append_items b [] = b"
| "append_items b ((name, t) # xs) = append_items (dd_append b name t) xs"

text \<open>Lines 56 to 62: the loop over \<^verbatim>\<open>range(self.curidx, endidx)\<close>.\<close>

fun collect ::
  "dataset \<Rightarrow> (string, nat) dict \<Rightarrow> int list \<Rightarrow>
     (string, int list list) dict \<times> (string, int list list) dict \<Rightarrow>
     error + ((string, int list list) dict \<times> (string, int list list) dict)"
where
  "collect ds pl [] acc = Inr acc"
| "collect ds pl (idx # idxs) (batch_x, batch_y) =
     (case to_tensor ds idx pl of
        Inl e \<Rightarrow> Inl e
      | Inr (x, y) \<Rightarrow> collect ds pl idxs (append_items batch_x x, append_items batch_y y))"

text \<open>Lines 66 to 71: every list of tensors is stacked, and moved to the device.\<close>

fun stack_all :: "bool \<Rightarrow> (string, int list list) dict \<Rightarrow> error + (string, tensor) dict" where
  "stack_all cuda [] = Inr []"
| "stack_all cuda ((name, tensor_list) # rest) =
     (case torch_stack tensor_list of
        Inl e \<Rightarrow> Inl e
      | Inr rows \<Rightarrow>
          (case stack_all cuda rest of
             Inl e \<Rightarrow> Inl e
           | Inr d \<Rightarrow> Inr ((name, Matrix (placement cuda) rows) # d)))"

text \<open>Lines 74 to 78: one length tensor for every name of \<^verbatim>\<open>batch_x\<close>.\<close>

fun origin_len_entries ::
  "bool \<Rightarrow> (string, nat list) dict \<Rightarrow> string list \<Rightarrow> (string, tensor) dict \<Rightarrow>
     error + (string, tensor) dict"
where
  "origin_len_entries cuda ol [] bol = Inr bol"
| "origin_len_entries cuda ol (name # names) bol =
     (case map_of ol name of
        None \<Rightarrow> Inl KeyError
      | Some l \<Rightarrow>
          origin_len_entries cuda ol names
            (AList.update (name @ ''_origin_len'') (Vector (placement cuda) (map int l)) bol))"

text \<open>Lines 51 to 79: the batch of the slice from \<open>c\<close> to \<open>e\<close>.\<close>

definition build_batch ::
  "dataset \<Rightarrow> bool \<Rightarrow> (string, nat list) dict \<Rightarrow> int \<Rightarrow> int \<Rightarrow> error + minibatch"
where
  "build_batch ds cuda ls c e =
     (case padding_length_of ls c e of
        Inl err \<Rightarrow> Inl err
      | Inr padding_length \<Rightarrow>
          (case collect ds padding_length (py_range c e) ([], []) of
             Inl err \<Rightarrow> Inl err
           | Inr (lists_x, lists_y) \<Rightarrow>
               (case stack_all cuda lists_x of
                  Inl err \<Rightarrow> Inl err
                | Inr batch_x \<Rightarrow>
                    (case stack_all cuda lists_y of
                       Inl err \<Rightarrow> Inl err
                     | Inr batch_y \<Rightarrow>
                         (case origin_len_entries cuda (origin_lengths_of ls c e)
                                 (map fst batch_x) [] of
                            Inl err \<Rightarrow> Inl err
                          | Inr batch_origin_length \<Rightarrow>
                              Inr (dict_update batch_x batch_origin_length, batch_y))))))"

text \<open>Line 50.\<close>

definition endidx_of :: "'s batch \<Rightarrow> int list \<Rightarrow> int" where
  "endidx_of st il = min (curidx st + batch_size st) (int (length il))"

text \<open>
  \<^verbatim>\<open>Batch.__next__\<close> (lines 47 to 82), as a function from the iterator before the call to the
  outcome (the exception raised or the pair returned) and the iterator after the call. The only
  assignment to the object is the one of line 81, after everything that can raise.
\<close>

definition Batch_next :: "'s batch \<Rightarrow> (error + minibatch) \<times> 's batch" where
  "Batch_next st =
     (case idx_list st of
        None \<Rightarrow> (Inl TypeError, st)
      | Some il \<Rightarrow>
          if curidx st \<ge> int (length il) then (Inl StopIteration, st)
          else
            (case lengths st of
               None \<Rightarrow> (Inl AttributeError, st)
             | Some ls \<Rightarrow>
                 (case build_batch (dataset st) (use_cuda st) ls (curidx st) (endidx_of st il) of
                    Inl err \<Rightarrow> (Inl err, st)
                  | Inr b \<Rightarrow> (Inr b, st\<lparr>curidx := curidx st + endidx_of st il\<rparr>))))"

text \<open>
  The iterator with the cursor set to the end of the slice, which the specification names as the
  evidently intended behaviour ("advance to \<^verbatim>\<open>endidx\<close> as an absolute position"). It differs from
  \<^const>\<open>Batch_next\<close> in the cursor of the returned state only.
\<close>

definition Batch_next_fixed :: "'s batch \<Rightarrow> (error + minibatch) \<times> 's batch" where
  "Batch_next_fixed st =
     (case idx_list st of
        None \<Rightarrow> (Inl TypeError, st)
      | Some il \<Rightarrow>
          if curidx st \<ge> int (length il) then (Inl StopIteration, st)
          else
            (case lengths st of
               None \<Rightarrow> (Inl AttributeError, st)
             | Some ls \<Rightarrow>
                 (case build_batch (dataset st) (use_cuda st) ls (curidx st) (endidx_of st il) of
                    Inl err \<Rightarrow> (Inl err, st)
                  | Inr b \<Rightarrow> (Inr b, st\<lparr>curidx := endidx_of st il\<rparr>))))"

text \<open>
  The \<^verbatim>\<open>for\<close> loop over an iterator: it asks for the next batch until \<^verbatim>\<open>StopIteration\<close>, and any
  other exception ends it. The loop need not end (with a batch size of 0 and instances without
  fields the cursor never moves), so it is a partial function: \<open>None\<close> is a loop that runs
  forever.
\<close>

partial_function (option) drain ::
  "('s batch \<Rightarrow> (error + minibatch) \<times> 's batch) \<Rightarrow> 's batch \<Rightarrow> minibatch list \<Rightarrow>
     (error + minibatch list) option"
where
  "drain step st acc =
     (case fst (step st) of
        Inl e \<Rightarrow> if e = StopIteration then Some (Inr (rev acc)) else Some (Inl e)
      | Inr b \<Rightarrow> drain step (snd (step st)) (b # acc))"

declare drain.simps [code]

text \<open>One full pass, \<^verbatim>\<open>for batch_x, batch_y in data_iterator\<close>: \<^verbatim>\<open>__iter__\<close>, then the loop.\<close>

definition run_pass :: "'s batch \<Rightarrow> (error + minibatch list) option" where
  "run_pass st = drain Batch_next (Batch_iter st) []"

definition run_pass_fixed :: "'s batch \<Rightarrow> (error + minibatch list) option" where
  "run_pass_fixed st = drain Batch_next_fixed (Batch_iter st) []"

section \<open>Well-formed inputs\<close>

text \<open>
  The inputs the specification admits: the instances of a dataset have pairwise distinct field
  names and all carry the same fields with the same tags; the sampler returns a permutation of
  the positions of the dataset; the batch size is positive.
\<close>

definition tags :: "inst \<Rightarrow> (string \<times> bool) list" where
  "tags ins = map (\<lambda>(n, f). (n, is_target f)) ins"

definition wf_dataset :: "dataset \<Rightarrow> bool" where
  "wf_dataset ds =
     (\<forall>ins \<in> set ds. distinct (map fst ins) \<and> (\<forall>ins' \<in> set ds. set (tags ins) = set (tags ins')))"

definition valid_ordering :: "int list \<Rightarrow> dataset \<Rightarrow> bool" where
  "valid_ordering il ds = (distinct il \<and> set il = set (py_range 0 (int (length ds))))"

text \<open>The iterator as \<^verbatim>\<open>Batch.__init__\<close> leaves it or a pass finds it, on admitted inputs.\<close>

definition well_formed :: "'s batch \<Rightarrow> bool" where
  "well_formed st =
     (wf_dataset (dataset st) \<and> 1 \<le> batch_size st \<and>
      valid_ordering (fst (sampler st (sampler_state st) (dataset st))) (dataset st))"

text \<open>The iterator during a pass on admitted inputs: after \<^verbatim>\<open>__iter__\<close> and any number of steps.\<close>

definition in_pass :: "'s batch \<Rightarrow> bool" where
  "in_pass st =
     (wf_dataset (dataset st) \<and> 1 \<le> batch_size st \<and> 0 \<le> curidx st \<and>
      lengths st = Some (get_length (dataset st)) \<and>
      (case idx_list st of None \<Rightarrow> False | Some il \<Rightarrow> valid_ordering il (dataset st)))"

section \<open>The running example\<close>

text \<open>The sampler of the demonstration at the end of \<^verbatim>\<open>batch.py\<close>: \<^verbatim>\<open>list(range(len(dataset)))\<close>.\<close>

definition SeqSampler :: "unit \<Rightarrow> dataset \<Rightarrow> int list \<times> unit" where
  "SeqSampler s ds = (py_range 0 (int (length ds)), s)"

text \<open>Three instances with a \<^verbatim>\<open>text\<close> of 4, 7 and 2 tokens and a \<^verbatim>\<open>label\<close>, the shape of the
  dataset of that demonstration.\<close>

definition three_texts :: "int list \<Rightarrow> int list \<Rightarrow> int list \<Rightarrow> dataset" where
  "three_texts a b c =
     [[(''text'', Field False a), (''label'', Field True [0])],
      [(''text'', Field False b), (''label'', Field True [1])],
      [(''text'', Field False c), (''label'', Field True [0])]]"

definition example_data :: dataset where
  "example_data = three_texts [0, 1, 2, 3] [4, 5, 2, 6, 7, 8, 9] [10, 11]"

text \<open>The iterator of that demonstration, with batch size 2, and its states during a pass: at
  the first step, at the second step, and once the second step has been taken.\<close>

definition example_iterator :: "unit batch" where
  "example_iterator = Batch_init example_data 2 SeqSampler () False"

definition first_step :: "unit batch" where
  "first_step = Batch_iter example_iterator"

definition second_step :: "unit batch" where
  "second_step = snd (Batch_next first_step)"

definition exhausted :: "unit batch" where
  "exhausted = snd (Batch_next second_step)"

text \<open>The same dataset with batch size 1, at its second step, and an iterator over no instance.\<close>

definition single_iterator :: "unit batch" where
  "single_iterator = Batch_init example_data 1 SeqSampler () False"

definition single_second :: "unit batch" where
  "single_second = snd (Batch_next (Batch_iter single_iterator))"

definition empty_iterator :: "unit batch" where
  "empty_iterator = Batch_init [] 2 SeqSampler () False"

section \<open>Notions used in the statements and proofs\<close>

text \<open>The values stored under a name in a list of items, and the list a \<^verbatim>\<open>defaultdict(list)\<close>
  holds for a name.\<close>

definition column :: "'k \<Rightarrow> ('k, 'v) dict \<Rightarrow> 'v list" where
  "column n xs = map snd (filter (\<lambda>kv. fst kv = n) xs)"

definition entries :: "('k, 'v list) dict \<Rightarrow> 'k \<Rightarrow> 'v list" where
  "entries b n = (case map_of b n of None \<Rightarrow> [] | Some l \<Rightarrow> l)"

definition no_empty :: "('k, 'v list) dict \<Rightarrow> bool" where
  "no_empty b = (\<forall>n. map_of b n \<noteq> Some [])"

text \<open>The padding length requested for a field, and what the conversion of an instance returns
  for one tag when every field has a requested length.\<close>

definition requested :: "(string, nat) dict \<Rightarrow> string \<Rightarrow> nat" where
  "requested pl n = (case map_of pl n of None \<Rightarrow> 0 | Some p \<Rightarrow> p)"

definition rendered :: "bool \<Rightarrow> (string, nat) dict \<Rightarrow> inst \<Rightarrow> (string, int list) dict" where
  "rendered tgt pl ins =
     map (\<lambda>(n, f). (n, pad_to (requested pl n) (content f))) (filter (\<lambda>(n, f). is_target f = tgt) ins)"

text \<open>The tokens and the true length of a field of an instance, and its tensor at a padding
  length.\<close>

definition field_content :: "string \<Rightarrow> inst \<Rightarrow> int list" where
  "field_content name ins = (case map_of ins name of None \<Rightarrow> [] | Some f \<Rightarrow> content f)"

definition length_in :: "string \<Rightarrow> inst \<Rightarrow> nat" where
  "length_in name ins = (case map_of ins name of None \<Rightarrow> 0 | Some f \<Rightarrow> origin_length f)"

definition render_in :: "nat \<Rightarrow> string \<Rightarrow> inst \<Rightarrow> int list" where
  "render_in p name ins = (case map_of ins name of None \<Rightarrow> [] | Some f \<Rightarrow> pad_to p (content f))"

text \<open>A name is a field of the dataset with the given tag (\<open>True\<close> for a target).\<close>

definition has_field :: "bool \<Rightarrow> dataset \<Rightarrow> string \<Rightarrow> bool" where
  "has_field tgt ds name =
     (\<exists>ins \<in> set ds. case map_of ins name of None \<Rightarrow> False | Some f \<Rightarrow> is_target f = tgt)"

text \<open>The largest true length of a field among some instances, and the rows of these instances
  filled up with 0 to that length.\<close>

definition batch_padding :: "inst list \<Rightarrow> string \<Rightarrow> nat" where
  "batch_padding sl name = Max (set (map (length_in name) sl))"

definition padded_rows :: "inst list \<Rightarrow> string \<Rightarrow> int list list" where
  "padded_rows sl name =
     map (\<lambda>ins. field_content name ins @ replicate (batch_padding sl name - length_in name ins) 0) sl"

text \<open>The instances of the step from a state: the slice of the dataset that lines 51 to 58
  read, from the cursor to \<^verbatim>\<open>endidx\<close>.\<close>

definition slice_of :: "'s batch \<Rightarrow> int list \<Rightarrow> inst list" where
  "slice_of st il = py_slice (dataset st) (curidx st) (endidx_of st il)"

text \<open>The positions of the ordering between the end of the slice of a step and the cursor after
  that step: the steps that follow start at that cursor or later.\<close>

definition skipped_positions :: "'s batch \<Rightarrow> int list" where
  "skipped_positions st =
     (case idx_list st of
        None \<Rightarrow> []
      | Some il \<Rightarrow>
          py_range (endidx_of st il) (min (curidx st + endidx_of st il) (int (length il))))"

text \<open>One successful step leads from a state to the next.\<close>

definition steps_to :: "'s batch \<Rightarrow> 's batch \<Rightarrow> bool" where
  "steps_to s s' = (case fst (Batch_next s) of Inl e \<Rightarrow> False | Inr b \<Rightarrow> s' = snd (Batch_next s))"

text \<open>A batch holds some instances of the dataset: its target mapping has, for every target
  field, the rows of these instances in their order, filled up with 0 to their largest length,
  and nothing else; its input mapping has the same for every input field, and under the name of
  every input field followed by \<^verbatim>\<open>_origin_len\<close> the true lengths of these instances in their
  order, and nothing else.\<close>

definition holds_instances :: "dataset \<Rightarrow> bool \<Rightarrow> inst list \<Rightarrow> minibatch \<Rightarrow> bool" where
  "holds_instances ds cuda sl b =
     ((\<forall>n. map_of (snd b) n =
         (if has_field True ds n then Some (Matrix (placement cuda) (padded_rows sl n)) else None)) \<and>
      (\<forall>n. has_field False ds n \<longrightarrow>
         map_of (fst b) (n @ ''_origin_len'') =
           Some (Vector (placement cuda) (map (\<lambda>ins. int (length_in n ins)) sl))) \<and>
      (\<forall>k. k \<notin> (\<lambda>n. n @ ''_origin_len'') ` {n. has_field False ds n} \<longrightarrow>
         map_of (fst b) k =
           (if has_field False ds k then Some (Matrix (placement cuda) (padded_rows sl k))
            else None)))"

section \<open>Slices, ranges and dictionaries\<close>

lemma slice_bound_nonneg: "0 \<le> i \<Longrightarrow> i \<le> int n \<Longrightarrow> slice_bound i n = nat i"
  by (simp add: slice_bound_def)

lemma py_slice_take_drop:
  "0 \<le> c \<Longrightarrow> c \<le> e \<Longrightarrow> e \<le> int (length xs) \<Longrightarrow>
     py_slice xs c e = take (nat e - nat c) (drop (nat c) xs)"
  by (simp add: py_slice_def slice_bound_nonneg Let_def)

lemma length_py_slice:
  "0 \<le> c \<Longrightarrow> c \<le> e \<Longrightarrow> e \<le> int (length xs) \<Longrightarrow> length (py_slice xs c e) = nat (e - c)"
  by (simp add: py_slice_take_drop)

lemma py_slice_map: "py_slice (map g xs) c e = map g (py_slice xs c e)"
  by (simp add: py_slice_def take_map drop_map Let_def)

lemma set_py_slice: "set (py_slice xs c e) \<subseteq> set xs"
  unfolding py_slice_def Let_def
  by (meson set_take_subset set_drop_subset subset_trans)

lemma py_range_slice:
  assumes "0 \<le> c" "c \<le> e" "e \<le> int (length xs)"
  shows "map (\<lambda>i. xs ! nat i) (py_range c e) = py_slice xs c e"
proof (rule nth_equalityI)
  show "length (map (\<lambda>i. xs ! nat i) (py_range c e)) = length (py_slice xs c e)"
    using assms by (simp add: length_py_slice py_range_def)
next
  fix k assume "k < length (map (\<lambda>i. xs ! nat i) (py_range c e))"
  then have k: "int k < e - c" using assms by (simp add: py_range_def)
  then have "py_range c e ! k = c + int k"
    by (simp add: py_range_def)
  moreover have "py_slice xs c e ! k = xs ! (nat c + k)"
    using assms k by (simp add: py_slice_take_drop) 
  moreover have "nat (c + int k) = nat c + k" using assms by linarith
  ultimately show "map (\<lambda>i. xs ! nat i) (py_range c e) ! k = py_slice xs c e ! k"
    using k assms by (simp add: py_range_def)
qed

lemma py_getitem_in_range:
  "0 \<le> i \<Longrightarrow> i < int (length xs) \<Longrightarrow> py_getitem xs i = Inr (xs ! nat i)"
  by (simp add: py_getitem_def)

lemma set_py_range: "set (py_range c e) = {c..<e}"
  by (auto simp add: py_range_def)

lemma py_max_Max: "xs \<noteq> [] \<Longrightarrow> py_max xs = Inr (Max (set xs))"
proof (cases xs)
  case (Cons a l)
  then show ?thesis using Max.set_eq_fold [of a l] by simp
qed simp

lemma length_pad_to: "length (pad_to p xs) = p"
  by (simp add: pad_to_def)

lemma pad_to_extends: "length xs \<le> p \<Longrightarrow> pad_to p xs = xs @ replicate (p - length xs) 0"
  by (simp add: pad_to_def)


lemma padding_length_of_ok:
  "\<forall>(n, fl) \<in> set ls. py_slice fl c e \<noteq> [] \<Longrightarrow>
     padding_length_of ls c e = Inr (map (\<lambda>(n, fl). (n, Max (set (py_slice fl c e)))) ls)"
  by (induction ls) (auto simp add: py_max_Max)

lemma padding_length_of_error: "padding_length_of ls c e = Inl err \<Longrightarrow> err = ValueError"
proof (induction ls)
  case Nil
  then show ?case by simp
next
  case (Cons a ls)
  obtain n fl where a: "a = (n, fl)" by (cases a)
  show ?case
  proof (cases "py_slice fl c e")
    case Nil
    with Cons.prems a show ?thesis by simp
  next
    case (Cons x xs)
    with Cons.prems Cons.IH a show ?thesis
      by (auto split: sum.splits)
  qed
qed

lemma instance_to_tensor_ok:
  "fst ` set ins \<subseteq> fst ` set pl \<Longrightarrow>
     instance_to_tensor ins pl = Inr (rendered False pl ins, rendered True pl ins)"
proof (induction ins)
  case Nil
  then show ?case by (simp add: rendered_def)
next
  case (Cons a ins)
  obtain n f where a: "a = (n, f)" by (cases a)
  from Cons.prems a have "n \<in> fst ` set pl" by simp
  then obtain p where p: "map_of pl n = Some p"
    by (metis domD dom_map_of_conv_image_fst)
  from Cons.prems have "fst ` set ins \<subseteq> fst ` set pl" by simp
  with Cons.IH have "instance_to_tensor ins pl = Inr (rendered False pl ins, rendered True pl ins)"
    by simp
  with a p show ?case by (simp add: rendered_def requested_def)
qed

lemma instance_to_tensor_error: "instance_to_tensor ins pl = Inl err \<Longrightarrow> err = KeyError"
proof (induction ins)
  case Nil
  then show ?case by simp
next
  case (Cons a ins)
  obtain n f where a: "a = (n, f)" by (cases a)
  with Cons show ?case
    by (auto split: option.splits sum.splits prod.splits if_splits)
qed

lemma to_tensor_error: "to_tensor ds idx pl = Inl err \<Longrightarrow> err = KeyError \<or> err = IndexError"
  by (auto simp add: to_tensor_def py_getitem_def dest: instance_to_tensor_error split: sum.splits if_splits)

lemma entries_dd_append:
  "entries (dd_append b k t) n = entries b n @ (if k = n then [t] else [])"
  by (simp add: entries_def dd_append_def update_conv')

lemma no_empty_dd_append: "no_empty b \<Longrightarrow> no_empty (dd_append b k t)"
  by (simp add: no_empty_def dd_append_def update_conv')

lemma distinct_dd_append: "distinct (map fst b) \<Longrightarrow> distinct (map fst (dd_append b k t))"
  by (simp add: dd_append_def distinct_update)

lemma entries_append_items: "entries (append_items b xs) n = entries b n @ column n xs"
  by (induction xs arbitrary: b) (auto simp add: column_def entries_dd_append)

lemma no_empty_append_items: "no_empty b \<Longrightarrow> no_empty (append_items b xs)"
  by (induction xs arbitrary: b) (auto simp add: no_empty_dd_append)

lemma distinct_append_items: "distinct (map fst b) \<Longrightarrow> distinct (map fst (append_items b xs))"
  by (induction xs arbitrary: b) (auto simp add: distinct_dd_append)

lemma map_of_entries: "no_empty b \<Longrightarrow> map_of b n = (if entries b n = [] then None else Some (entries b n))"
  by (auto simp add: entries_def no_empty_def split: option.splits)


lemma collect_ok:
  assumes "\<forall>idx \<in> set idxs. to_tensor ds idx pl = Inr (X idx, Y idx)"
  shows "\<exists>bx' by'. collect ds pl idxs (bx, by) = Inr (bx', by') \<and>
     (\<forall>n. entries bx' n = entries bx n @ concat (map (\<lambda>idx. column n (X idx)) idxs)) \<and>
     (\<forall>n. entries by' n = entries by n @ concat (map (\<lambda>idx. column n (Y idx)) idxs)) \<and>
     (no_empty bx \<longrightarrow> no_empty bx') \<and> (no_empty by \<longrightarrow> no_empty by') \<and>
     (distinct (map fst bx) \<longrightarrow> distinct (map fst bx')) \<and>
     (distinct (map fst by) \<longrightarrow> distinct (map fst by'))"
  using assms
proof (induction idxs arbitrary: bx "by")
  case Nil
  then show ?case by simp
next
  case (Cons idx idxs)
  have step: "to_tensor ds idx pl = Inr (X idx, Y idx)" using Cons.prems by simp
  have rest: "\<forall>i \<in> set idxs. to_tensor ds i pl = Inr (X i, Y i)" using Cons.prems by simp
  from Cons.IH [OF rest, of "append_items bx (X idx)" "append_items by (Y idx)"]
  obtain bx' by' where r:
    "collect ds pl idxs (append_items bx (X idx), append_items by (Y idx)) = Inr (bx', by')"
    "\<forall>n. entries bx' n =
        entries (append_items bx (X idx)) n @ concat (map (\<lambda>idx. column n (X idx)) idxs)"
    "\<forall>n. entries by' n =
        entries (append_items by (Y idx)) n @ concat (map (\<lambda>idx. column n (Y idx)) idxs)"
    "no_empty (append_items bx (X idx)) \<longrightarrow> no_empty bx'"
    "no_empty (append_items by (Y idx)) \<longrightarrow> no_empty by'"
    "distinct (map fst (append_items bx (X idx))) \<longrightarrow> distinct (map fst bx')"
    "distinct (map fst (append_items by (Y idx))) \<longrightarrow> distinct (map fst by')"
    by blast
  have "collect ds pl (idx # idxs) (bx, by) = Inr (bx', by')"
    using step r(1) by simp
  moreover have "\<forall>n. entries bx' n = entries bx n @ concat (map (\<lambda>idx. column n (X idx)) (idx # idxs))"
    using r(2) by (simp add: entries_append_items)
  moreover have "\<forall>n. entries by' n = entries by n @ concat (map (\<lambda>idx. column n (Y idx)) (idx # idxs))"
    using r(3) by (simp add: entries_append_items)
  ultimately show ?case
    using r(4-7) no_empty_append_items distinct_append_items by blast
qed

lemma collect_error:
  "collect ds pl idxs acc = Inl err \<Longrightarrow> err = KeyError \<or> err = IndexError"
proof (induction idxs arbitrary: acc)
  case Nil
  then show ?case by (cases acc) simp
next
  case (Cons idx idxs)
  obtain bx "by" where acc: "acc = (bx, by)" by (cases acc)
  show ?case
  proof (cases "to_tensor ds idx pl")
    case (Inl e)
    with Cons.prems acc show ?thesis by (auto dest: to_tensor_error)
  next
    case (Inr xy)
    with Cons.prems acc Cons.IH show ?thesis by (cases xy) auto
  qed
qed

lemma torch_stack_ok:
  "l \<noteq> [] \<Longrightarrow> \<forall>u \<in> set l. length u = p \<Longrightarrow> torch_stack l = Inr l"
  by (cases l) (auto simp add: torch_stack_def list_all_iff)

lemma stack_all_ok:
  "\<forall>(n, l) \<in> set b. l \<noteq> [] \<and> (\<exists>p. \<forall>u \<in> set l. length u = p) \<Longrightarrow>
     stack_all cuda b = Inr (map (\<lambda>(n, l). (n, Matrix (placement cuda) l)) b)"
proof (induction b)
  case Nil
  then show ?case by simp
next
  case (Cons a b)
  obtain n l where a: "a = (n, l)" by (cases a)
  from Cons.prems a obtain p where "l \<noteq> []" "\<forall>u \<in> set l. length u = p" by auto
  then have "torch_stack l = Inr l" by (rule torch_stack_ok)
  moreover have "stack_all cuda b = Inr (map (\<lambda>(n, l). (n, Matrix (placement cuda) l)) b)"
    using Cons by simp
  ultimately show ?case using a by simp
qed

lemma stack_all_error: "stack_all cuda b = Inl err \<Longrightarrow> err = RuntimeError"
proof (induction b)
  case Nil
  then show ?case by simp
next
  case (Cons a b)
  obtain n l where a: "a = (n, l)" by (cases a)
  with Cons show ?case
    by (auto simp add: torch_stack_def split: sum.splits list.splits if_splits)
qed

lemma origin_len_entries_ok:
  assumes "set names \<subseteq> fst ` set ol"
  shows "\<exists>bol'. origin_len_entries cuda ol names bol = Inr bol' \<and>
     (\<forall>n \<in> set names. map_of bol' (n @ ''_origin_len'') =
        Some (Vector (placement cuda) (map int (entries ol n)))) \<and>
     (\<forall>k. k \<notin> (\<lambda>n. n @ ''_origin_len'') ` set names \<longrightarrow> map_of bol' k = map_of bol k) \<and>
     (distinct (map fst bol) \<longrightarrow> distinct (map fst bol'))"
  using assms
proof (induction names arbitrary: bol)
  case Nil
  then show ?case by simp
next
  case (Cons name names)
  from Cons.prems obtain l where l: "map_of ol name = Some l"
    by (metis domD dom_map_of_conv_image_fst list.set_intros(1) subsetD)
  let ?v = "Vector (placement cuda) (map int l)"
  let ?bol = "AList.update (name @ ''_origin_len'') ?v bol"
  from Cons.prems have "set names \<subseteq> fst ` set ol" by simp
  from Cons.IH [OF this, of ?bol] obtain bol' where r:
    "origin_len_entries cuda ol names ?bol = Inr bol'"
    "\<forall>n \<in> set names. map_of bol' (n @ ''_origin_len'') =
        Some (Vector (placement cuda) (map int (entries ol n)))"
    "\<forall>k. k \<notin> (\<lambda>n. n @ ''_origin_len'') ` set names \<longrightarrow> map_of bol' k = map_of ?bol k"
    "distinct (map fst ?bol) \<longrightarrow> distinct (map fst bol')"
    by blast
  have 1: "origin_len_entries cuda ol (name # names) bol = Inr bol'"
    using l r(1) by simp
  have 2: "map_of bol' (n @ ''_origin_len'') = Some (Vector (placement cuda) (map int (entries ol n)))"
    if "n \<in> set (name # names)" for n
  proof (cases "n \<in> set names")
    case True
    with r(2) show ?thesis by simp
  next
    case False
    with that have n: "n = name" by simp
    from False have "n @ ''_origin_len'' \<notin> (\<lambda>n. n @ ''_origin_len'') ` set names" by auto
    with r(3) have "map_of bol' (n @ ''_origin_len'') = map_of ?bol (n @ ''_origin_len'')" by blast
    with n l show ?thesis by (simp add: update_conv' entries_def)
  qed
  have 3: "map_of bol' k = map_of bol k" if "k \<notin> (\<lambda>n. n @ ''_origin_len'') ` set (name # names)" for k
  proof -
    from that have "k \<notin> (\<lambda>n. n @ ''_origin_len'') ` set names" and "k \<noteq> name @ ''_origin_len''"
      by auto
    with r(3) show ?thesis by (simp add: update_conv')
  qed
  have 4: "distinct (map fst bol) \<longrightarrow> distinct (map fst bol')"
    using r(4) by (simp add: distinct_update)
  from 1 2 3 4 show ?case by blast
qed

lemma origin_len_entries_error:
  "origin_len_entries cuda ol names bol = Inl err \<Longrightarrow> err = KeyError"
  by (induction names arbitrary: bol) (auto split: option.splits)

lemma map_of_dict_update:
  "distinct (map fst e) \<Longrightarrow>
     map_of (dict_update d e) k = (case map_of e k of None \<Rightarrow> map_of d k | Some v \<Rightarrow> Some v)"
proof (induction e arbitrary: d)
  case Nil
  then show ?case by (simp add: dict_update_def)
next
  case (Cons a e)
  obtain k0 v0 where a: "a = (k0, v0)" by (cases a)
  from Cons.prems a have d: "distinct (map fst e)" and k0: "k0 \<notin> fst ` set e" by auto
  have "dict_update d (a # e) = dict_update (AList.update k0 v0 d) e"
    using a by (simp add: dict_update_def)
  then have "map_of (dict_update d (a # e)) k =
      (case map_of e k of None \<Rightarrow> map_of (AList.update k0 v0 d) k | Some v \<Rightarrow> Some v)"
    using Cons.IH [OF d] by simp
  moreover have "map_of e k0 = None" using k0 by (simp add: map_of_eq_None_iff)
  ultimately show ?case using a
    by (auto simp add: update_conv' split: option.splits)
qed

section \<open>Well-formed datasets\<close>

lemma wf_same_field:
  assumes "wf_dataset ds" "ins \<in> set ds" "ins' \<in> set ds" "map_of ins n = Some f"
  shows "\<exists>f'. map_of ins' n = Some f' \<and> is_target f' = is_target f"
proof -
  from assms(1,2,3) have eq: "set (tags ins) = set (tags ins')"
    unfolding wf_dataset_def by blast
  from assms(1,3) have d: "distinct (map fst ins')"
    unfolding wf_dataset_def by blast
  from assms(4) have "(n, f) \<in> set ins" by (rule map_of_SomeD)
  then have "(\<lambda>(n, f). (n, is_target f)) (n, f) \<in> set (tags ins)"
    unfolding tags_def set_map by (rule imageI)
  then have "(n, is_target f) \<in> set (tags ins')" using eq by simp
  then obtain kv where kv: "kv \<in> set ins'" "(n, is_target f) = (\<lambda>(n, f). (n, is_target f)) kv"
    unfolding tags_def set_map by (rule imageE)
  obtain k f' where "kv = (k, f')" by (cases kv)
  with kv have "(n, f') \<in> set ins'" "is_target f' = is_target f" by simp_all
  with d show ?thesis by simp
qed

lemma wf_has_field:
  assumes "wf_dataset ds" "ins \<in> set ds"
  shows "has_field tgt ds n \<longleftrightarrow> (\<exists>f. map_of ins n = Some f \<and> is_target f = tgt)"
proof
  assume "has_field tgt ds n"
  then obtain ins' f' where "ins' \<in> set ds" "map_of ins' n = Some f'" "is_target f' = tgt"
    by (auto simp add: has_field_def split: option.splits)
  with wf_same_field [OF assms(1) this(1) assms(2) this(2)] show "\<exists>f. map_of ins n = Some f \<and> is_target f = tgt"
    by auto
next
  assume "\<exists>f. map_of ins n = Some f \<and> is_target f = tgt"
  with assms(2) show "has_field tgt ds n"
    by (auto simp add: has_field_def intro!: bexI [of _ ins])
qed

lemma wf_names:
  assumes "wf_dataset ds" "ins \<in> set ds"
  shows "fst ` set ins = set (concat (map (map fst) ds))"
proof
  show "fst ` set ins \<subseteq> set (concat (map (map fst) ds))" using assms(2) by auto
next
  show "set (concat (map (map fst) ds)) \<subseteq> fst ` set ins"
  proof
    fix n assume "n \<in> set (concat (map (map fst) ds))"
    then obtain ins' where i: "ins' \<in> set ds" "n \<in> fst ` set ins'" by auto
    then obtain f' where "map_of ins' n = Some f'"
      by (metis domD dom_map_of_conv_image_fst)
    from wf_same_field [OF assms(1) i(1) assms(2) this] obtain f where "map_of ins n = Some f"
      by blast
    then show "n \<in> fst ` set ins"
      by (metis domI dom_map_of_conv_image_fst)
  qed
qed

lemma filter_name_distinct:
  "distinct (map fst ins) \<Longrightarrow>
     filter (\<lambda>kv. fst kv = n) ins = (case map_of ins n of None \<Rightarrow> [] | Some f \<Rightarrow> [(n, f)])"
proof (induction ins)
  case Nil
  then show ?case by simp
next
  case (Cons a ins)
  obtain k f where a: "a = (k, f)" by (cases a)
  show ?case
  proof (cases "k = n")
    case True
    with Cons.prems a have "n \<notin> fst ` set ins" by auto
    then have "filter (\<lambda>kv. fst kv = n) ins = []"
      by (auto simp add: filter_empty_conv)
    with True a show ?thesis by simp
  next
    case False
    with Cons a show ?thesis by simp
  qed
qed

lemma field_lengths_wf:
  assumes "wf_dataset ds"
  shows "field_lengths ds n =
     concat (map (\<lambda>ins. case map_of ins n of None \<Rightarrow> [] | Some f \<Rightarrow> [origin_length f]) ds)"
proof -
  have "map (\<lambda>(k, f). origin_length f) (filter (\<lambda>(k, f). k = n) ins) =
      (case map_of ins n of None \<Rightarrow> [] | Some f \<Rightarrow> [origin_length f])" if "ins \<in> set ds" for ins
  proof -
    from assms that have "distinct (map fst ins)" by (simp add: wf_dataset_def)
    moreover have "(\<lambda>(k, f). k = n) = (\<lambda>kv::string \<times> field. fst kv = n)"
      by (simp add: fun_eq_iff)
    ultimately show ?thesis
      using filter_name_distinct [of ins n] by (simp split: option.splits)
  qed
  then have "map (\<lambda>ins. map (\<lambda>(k, f). origin_length f) (filter (\<lambda>(k, f). k = n) ins)) ds =
      map (\<lambda>ins. case map_of ins n of None \<Rightarrow> [] | Some f \<Rightarrow> [origin_length f]) ds"
    by simp
  then show ?thesis
    by (simp only: field_lengths_def)
qed

lemma field_lengths_has:
  assumes "wf_dataset ds" "n \<in> set (concat (map (map fst) ds))"
  shows "field_lengths ds n = map (length_in n) ds"
proof -
  have "(case map_of ins n of None \<Rightarrow> [] | Some f \<Rightarrow> [origin_length f]) = [length_in n ins]"
    if "ins \<in> set ds" for ins
  proof -
    from wf_names [OF assms(1) that] assms(2) have "n \<in> fst ` set ins" by simp
    then obtain f where "map_of ins n = Some f"
      by (metis domD dom_map_of_conv_image_fst)
    then show ?thesis by (simp add: length_in_def)
  qed
  then have "map (\<lambda>ins. case map_of ins n of None \<Rightarrow> [] | Some f \<Rightarrow> [origin_length f]) ds =
      map (\<lambda>ins. [length_in n ins]) ds"
    by simp
  then have "field_lengths ds n = concat (map (\<lambda>ins. [length_in n ins]) ds)"
    by (simp only: field_lengths_wf [OF assms(1)])
  then show ?thesis by simp
qed


lemma map_of_tabulate:
  "map_of (map (\<lambda>k. (k, g k)) xs) n = (if n \<in> set xs then Some (g n) else None)"
  by (induction xs) auto

lemma map_of_get_length:
  "map_of (get_length ds) n =
     (if n \<in> set (concat (map (map fst) ds)) then Some (field_lengths ds n) else None)"
  unfolding get_length_def by (simp only: map_of_tabulate set_remdups)

lemma keys_get_length: "fst ` set (get_length ds) = set (concat (map (map fst) ds))"
  unfolding get_length_def by (simp add: image_image)

lemma slice_field_lengths:
  assumes "wf_dataset ds" "n \<in> set (concat (map (map fst) ds))"
  shows "py_slice (field_lengths ds n) c e = map (length_in n) (py_slice ds c e)"
  by (simp only: field_lengths_has [OF assms] py_slice_map)

lemma padding_wf:
  assumes "wf_dataset ds" "0 \<le> c" "c < e" "e \<le> int (length ds)"
  shows "padding_length_of (get_length ds) c e =
     Inr (map (\<lambda>name. (name, batch_padding (py_slice ds c e) name))
            (remdups (concat (map (map fst) ds))))"
proof -
  let ?names = "remdups (concat (map (map fst) ds))"
  have len: "length (py_slice ds c e) = nat (e - c)"
    using assms by (simp add: length_py_slice)
  have ne: "\<forall>(n, fl) \<in> set (get_length ds). py_slice fl c e \<noteq> []"
  proof (clarify)
    fix n fl assume "(n, fl) \<in> set (get_length ds)" and e: "py_slice fl c e = []"
    then have n: "n \<in> set (concat (map (map fst) ds))" and fl: "fl = field_lengths ds n"
      by (auto simp add: get_length_def)
    from slice_field_lengths [OF assms(1) n, of c e] fl e
    have "map (length_in n) (py_slice ds c e) = []" by simp
    with len assms show False by simp
  qed
  have "map (\<lambda>(n, fl). (n, Max (set (py_slice fl c e)))) (get_length ds) =
      map (\<lambda>name. (name, Max (set (py_slice (field_lengths ds name) c e)))) ?names"
    by (simp add: get_length_def comp_def)
  also have "\<dots> = map (\<lambda>name. (name, batch_padding (py_slice ds c e) name)) ?names"
  proof (rule map_cong [OF refl])
    fix name assume "name \<in> set ?names"
    then have "name \<in> set (concat (map (map fst) ds))" by simp
    from slice_field_lengths [OF assms(1) this, of c e]
    show "(name, Max (set (py_slice (field_lengths ds name) c e))) =
        (name, batch_padding (py_slice ds c e) name)"
      by (simp add: batch_padding_def)
  qed
  finally show ?thesis
    using padding_length_of_ok [OF ne] by simp
qed

lemma column_absent: "n \<notin> fst ` set ins \<Longrightarrow> column n (rendered tgt pl ins) = []"
  by (force simp add: column_def rendered_def filter_empty_conv)

lemma column_rendered:
  assumes "distinct (map fst ins)"
  shows "column n (rendered tgt pl ins) =
     (case map_of ins n of
        None \<Rightarrow> []
      | Some f \<Rightarrow> if is_target f = tgt then [pad_to (requested pl n) (content f)] else [])"
  using assms
proof (induction ins)
  case Nil
  then show ?case by (simp add: column_def rendered_def)
next
  case (Cons a ins)
  obtain k f where a: "a = (k, f)" by (cases a)
  show ?case
  proof (cases "k = n")
    case True
    with Cons.prems a have "n \<notin> fst ` set ins" by auto
    then have "column n (rendered tgt pl ins) = []" by (rule column_absent)
    then show ?thesis using True a by (simp add: column_def rendered_def)
  next
    case False
    from Cons.prems have "distinct (map fst ins)" by simp
    with Cons.IH have "column n (rendered tgt pl ins) =
      (case map_of ins n of None \<Rightarrow> []
       | Some f \<Rightarrow> if is_target f = tgt then [pad_to (requested pl n) (content f)] else [])"
      by simp
    then show ?thesis using False a by (simp add: column_def rendered_def)
  qed
qed

lemma column_wf:
  assumes "wf_dataset ds" "ins \<in> set ds"
  shows "column n (rendered tgt pl ins) =
     (if has_field tgt ds n then [render_in (requested pl n) n ins] else [])"
proof -
  from assms have d: "distinct (map fst ins)" unfolding wf_dataset_def by blast
  show ?thesis
  proof (cases "has_field tgt ds n")
    case True
    with wf_has_field [OF assms, of tgt n] obtain f where "map_of ins n = Some f" "is_target f = tgt"
      by blast
    with True show ?thesis by (simp add: column_rendered [OF d] render_in_def)
  next
    case False
    with wf_has_field [OF assms, of tgt n] have "\<forall>f. map_of ins n = Some f \<longrightarrow> is_target f \<noteq> tgt"
      by blast
    with False show ?thesis by (simp add: column_rendered [OF d] split: option.splits)
  qed
qed


lemma has_field_name:
  assumes "has_field tgt ds n"
  shows "n \<in> set (concat (map (map fst) ds))"
proof -
  from assms obtain ins f where "ins \<in> set ds" "map_of ins n = Some f"
    by (auto simp add: has_field_def split: option.splits)
  then have "ins \<in> set ds" "n \<in> fst ` set ins"
    by (auto dest!: map_of_SomeD intro: rev_image_eqI)
  then show ?thesis by auto
qed

lemma length_render_in:
  assumes "wf_dataset ds" "ins \<in> set ds" "has_field tgt ds n"
  shows "length (render_in p n ins) = p"
proof -
  from wf_has_field [OF assms(1,2), of tgt n] assms(3) obtain f where "map_of ins n = Some f"
    by blast
  then show ?thesis by (simp add: render_in_def length_pad_to)
qed

lemma collect_wf:
  assumes wf: "wf_dataset ds" and c: "0 \<le> c" "c < e" "e \<le> int (length ds)"
  defines "sl \<equiv> py_slice ds c e"
  defines "pl \<equiv> map (\<lambda>name. (name, batch_padding sl name)) (remdups (concat (map (map fst) ds)))"
  shows "\<exists>lx ly. collect ds pl (py_range c e) ([], []) = Inr (lx, ly) \<and>
     distinct (map fst lx) \<and> distinct (map fst ly) \<and>
     (\<forall>n. map_of lx n =
        (if has_field False ds n then Some (map (render_in (batch_padding sl n) n) sl) else None)) \<and>
     (\<forall>n. map_of ly n =
        (if has_field True ds n then Some (map (render_in (batch_padding sl n) n) sl) else None))"
proof -
  let ?X = "\<lambda>idx. rendered False pl (ds ! nat idx)"
  let ?Y = "\<lambda>idx. rendered True pl (ds ! nat idx)"
  have keys: "fst ` set pl = set (concat (map (map fst) ds))"
    by (simp add: pl_def image_image)
  have req: "requested pl n = batch_padding sl n" if "has_field tgt ds n" for tgt n
    using has_field_name [OF that] by (simp add: requested_def pl_def map_of_tabulate)
  have sl_ds: "set sl \<subseteq> set ds" unfolding sl_def by (rule set_py_slice)
  have sl_ne: "sl \<noteq> []"
  proof
    assume "sl = []"
    then have "length (py_slice ds c e) = 0" by (simp add: sl_def)
    with c show False by (simp add: length_py_slice)
  qed
  have conv: "\<forall>idx \<in> set (py_range c e). to_tensor ds idx pl = Inr (?X idx, ?Y idx)"
  proof
    fix idx assume "idx \<in> set (py_range c e)"
    with c have r: "0 \<le> idx" "idx < int (length ds)" by (simp_all add: set_py_range)
    then have "nat idx < length ds" by simp
    then have m: "ds ! nat idx \<in> set ds" by (rule nth_mem)
    have "fst ` set (ds ! nat idx) \<subseteq> fst ` set pl"
      using wf_names [OF wf m] keys by simp
    then show "to_tensor ds idx pl = Inr (?X idx, ?Y idx)"
      by (simp add: to_tensor_def py_getitem_in_range [OF r] instance_to_tensor_ok)
  qed
  have col: "concat (map (\<lambda>idx. column n (rendered tgt pl (ds ! nat idx))) (py_range c e)) =
      (if has_field tgt ds n then map (render_in (batch_padding sl n) n) sl else [])" for tgt n
  proof -
    have "map (\<lambda>idx. column n (rendered tgt pl (ds ! nat idx))) (py_range c e) =
        map (\<lambda>ins. column n (rendered tgt pl ins)) (map (\<lambda>i. ds ! nat i) (py_range c e))"
      by (simp add: comp_def)
    also have "\<dots> = map (\<lambda>ins. column n (rendered tgt pl ins)) sl"
      using c by (simp add: py_range_slice sl_def)
    also have "\<dots> = map (\<lambda>ins. if has_field tgt ds n then [render_in (requested pl n) n ins] else []) sl"
      using sl_ds by (intro map_cong [OF refl] column_wf [OF wf]) auto
    finally show ?thesis
      by (cases "has_field tgt ds n") (simp_all add: req)
  qed
  from collect_ok [OF conv, of "[]" "[]"] obtain lx ly where r:
    "collect ds pl (py_range c e) ([], []) = Inr (lx, ly)"
    "\<forall>n. entries lx n = entries [] n @ concat (map (\<lambda>idx. column n (?X idx)) (py_range c e))"
    "\<forall>n. entries ly n = entries [] n @ concat (map (\<lambda>idx. column n (?Y idx)) (py_range c e))"
    "no_empty lx" "no_empty ly" "distinct (map fst lx)" "distinct (map fst ly)"
    by (auto simp add: no_empty_def)
  have ex: "entries lx n = (if has_field False ds n then map (render_in (batch_padding sl n) n) sl else [])" for n
    using r(2) col [of n False] by (simp add: entries_def)
  have ey: "entries ly n = (if has_field True ds n then map (render_in (batch_padding sl n) n) sl else [])" for n
    using r(3) col [of n True] by (simp add: entries_def)
  have "map_of lx n =
      (if has_field False ds n then Some (map (render_in (batch_padding sl n) n) sl) else None)" for n
    using sl_ne by (simp add: map_of_entries [OF r(4)] ex)
  moreover have "map_of ly n =
      (if has_field True ds n then Some (map (render_in (batch_padding sl n) n) sl) else None)" for n
    using sl_ne by (simp add: map_of_entries [OF r(5)] ey)
  ultimately show ?thesis using r(1,6,7) by blast
qed


lemma stack_wf:
  assumes wf: "wf_dataset ds" and sl: "set sl \<subseteq> set ds" "sl \<noteq> []"
    and d: "distinct (map fst l)"
    and l: "\<forall>n. map_of l n = (if has_field tgt ds n then Some (map (render_in (P n) n) sl) else None)"
  shows "\<exists>b. stack_all cuda l = Inr b \<and> set (map fst b) = {n. has_field tgt ds n} \<and>
     (\<forall>n. map_of b n =
        (if has_field tgt ds n then Some (Matrix (placement cuda) (map (render_in (P n) n) sl))
         else None))"
proof -
  let ?b = "map (\<lambda>(n, rows). (n, Matrix (placement cuda) rows)) l"
  have "\<forall>(n, rows) \<in> set l. rows \<noteq> [] \<and> (\<exists>p. \<forall>u \<in> set rows. length u = p)"
  proof (clarify)
    fix n rows assume "(n, rows) \<in> set l"
    with d have "map_of l n = Some rows" by simp
    with l have h: "has_field tgt ds n" and rows: "rows = map (render_in (P n) n) sl"
      by (auto split: if_splits)
    have "\<forall>u \<in> set rows. length u = P n"
      using sl(1) rows by (auto simp add: length_render_in [OF wf _ h])
    with rows sl(2) show "rows \<noteq> [] \<and> (\<exists>p. \<forall>u \<in> set rows. length u = p)" by blast
  qed
  then have 1: "stack_all cuda l = Inr ?b" by (rule stack_all_ok)
  have 2: "map_of ?b n =
      (if has_field tgt ds n then Some (Matrix (placement cuda) (map (render_in (P n) n) sl)) else None)" for n
    using l by (simp add: map_of_map)
  have "set (map fst ?b) = fst ` set l" by (simp add: image_image case_prod_beta)
  also have "\<dots> = dom (map_of l)" by (simp add: dom_map_of_conv_image_fst)
  also have "\<dots> = {n. has_field tgt ds n}" using l by (auto simp add: dom_def)
  finally have 3: "set (map fst ?b) = {n. has_field tgt ds n}" .
  from 1 2 3 show ?thesis by blast
qed

lemma origin_lengths_wf:
  assumes "wf_dataset ds" "n \<in> set (concat (map (map fst) ds))"
  shows "entries (origin_lengths_of (get_length ds) c e) n = map (length_in n) (py_slice ds c e)"
proof -
  have "map_of (origin_lengths_of (get_length ds) c e) n =
      map_option (\<lambda>fl. py_slice fl c e) (map_of (get_length ds) n)"
    by (simp add: origin_lengths_of_def map_of_map)
  with assms(2) show ?thesis
    by (simp add: entries_def map_of_get_length slice_field_lengths [OF assms])
qed

lemma keys_origin_lengths_of: "fst ` set (origin_lengths_of ls c e) = fst ` set ls"
  by (force simp add: origin_lengths_of_def)

lemma build_batch_wf:
  assumes wf: "wf_dataset ds" and c: "0 \<le> c" "c < e" "e \<le> int (length ds)"
  defines "sl \<equiv> py_slice ds c e"
  shows "\<exists>bx by. build_batch ds cuda (get_length ds) c e = Inr (bx, by) \<and>
     (\<forall>n. map_of by n =
        (if has_field True ds n
         then Some (Matrix (placement cuda) (map (render_in (batch_padding sl n) n) sl))
         else None)) \<and>
     (\<forall>n. has_field False ds n \<longrightarrow>
        map_of bx (n @ ''_origin_len'') =
          Some (Vector (placement cuda) (map (\<lambda>ins. int (length_in n ins)) sl))) \<and>
     (\<forall>k. k \<notin> (\<lambda>n. n @ ''_origin_len'') ` {n. has_field False ds n} \<longrightarrow>
        map_of bx k =
          (if has_field False ds k
           then Some (Matrix (placement cuda) (map (render_in (batch_padding sl k) k) sl))
           else None))"
proof -
  let ?pl = "map (\<lambda>name. (name, batch_padding sl name)) (remdups (concat (map (map fst) ds)))"
  let ?ol = "origin_lengths_of (get_length ds) c e"
  have sl_ds: "set sl \<subseteq> set ds" unfolding sl_def by (rule set_py_slice)
  have sl_ne: "sl \<noteq> []"
  proof
    assume "sl = []"
    then have "length (py_slice ds c e) = 0" by (simp add: sl_def)
    with c show False by (simp add: length_py_slice)
  qed
  have p: "padding_length_of (get_length ds) c e = Inr ?pl"
    unfolding sl_def by (rule padding_wf [OF wf c])
  from collect_wf [OF wf c] obtain lx ly where coll:
    "collect ds ?pl (py_range c e) ([], []) = Inr (lx, ly)"
    "distinct (map fst lx)" "distinct (map fst ly)"
    "\<forall>n. map_of lx n =
        (if has_field False ds n then Some (map (render_in (batch_padding sl n) n) sl) else None)"
    "\<forall>n. map_of ly n =
        (if has_field True ds n then Some (map (render_in (batch_padding sl n) n) sl) else None)"
    unfolding sl_def by blast
  from stack_wf [OF wf sl_ds sl_ne coll(2) coll(4), of cuda] obtain batch_x where bx:
    "stack_all cuda lx = Inr batch_x" "set (map fst batch_x) = {n. has_field False ds n}"
    "\<forall>n. map_of batch_x n =
        (if has_field False ds n
         then Some (Matrix (placement cuda) (map (render_in (batch_padding sl n) n) sl)) else None)"
    by blast
  from stack_wf [OF wf sl_ds sl_ne coll(3) coll(5), of cuda] obtain batch_y where "by":
    "stack_all cuda ly = Inr batch_y"
    "\<forall>n. map_of batch_y n =
        (if has_field True ds n
         then Some (Matrix (placement cuda) (map (render_in (batch_padding sl n) n) sl)) else None)"
    by blast
  have "set (map fst batch_x) \<subseteq> fst ` set ?ol"
    using bx(2) has_field_name by (auto simp add: keys_origin_lengths_of keys_get_length)
  from origin_len_entries_ok [OF this, of cuda "[]"] obtain bol where bol:
    "origin_len_entries cuda ?ol (map fst batch_x) [] = Inr bol"
    "\<forall>n \<in> set (map fst batch_x). map_of bol (n @ ''_origin_len'') =
        Some (Vector (placement cuda) (map int (entries ?ol n)))"
    "\<forall>k. k \<notin> (\<lambda>n. n @ ''_origin_len'') ` set (map fst batch_x) \<longrightarrow> map_of bol k = map_of [] k"
    "distinct (map fst bol)"
    by auto
  have 1: "build_batch ds cuda (get_length ds) c e = Inr (dict_update batch_x bol, batch_y)"
    by (simp add: build_batch_def p coll(1) bx(1) "by"(1) bol(1))
  have 2: "map_of (dict_update batch_x bol) (n @ ''_origin_len'') =
      Some (Vector (placement cuda) (map (\<lambda>ins. int (length_in n ins)) sl))" if "has_field False ds n" for n
  proof -
    from that bx(2) have "n \<in> set (map fst batch_x)" by simp
    with bol(2) have "map_of bol (n @ ''_origin_len'') =
        Some (Vector (placement cuda) (map int (entries ?ol n)))" by blast
    moreover have "entries ?ol n = map (length_in n) sl"
      unfolding sl_def by (rule origin_lengths_wf [OF wf has_field_name [OF that]])
    ultimately show ?thesis
      by (simp add: map_of_dict_update [OF bol(4)] comp_def)
  qed
  have 3: "map_of (dict_update batch_x bol) k =
      (if has_field False ds k
       then Some (Matrix (placement cuda) (map (render_in (batch_padding sl k) k) sl)) else None)"
    if "k \<notin> (\<lambda>n. n @ ''_origin_len'') ` {n. has_field False ds n}" for k
  proof -
    from that bx(2) have "k \<notin> (\<lambda>n. n @ ''_origin_len'') ` set (map fst batch_x)" by simp
    with bol(3) have "map_of bol k = None" by simp
    then show ?thesis using bx(3) by (simp add: map_of_dict_update [OF bol(4)])
  qed
  from 1 2 3 "by"(2) show ?thesis by blast
qed

section \<open>Steps of a pass on admitted inputs\<close>

lemma valid_ordering_length: "valid_ordering il ds \<Longrightarrow> length il = length ds"
proof -
  assume v: "valid_ordering il ds"
  then have "distinct il" by (simp add: valid_ordering_def)
  then have "length il = card (set il)" by (simp only: distinct_card)
  also have "\<dots> = card {0..<int (length ds)}" using v by (simp add: valid_ordering_def set_py_range)
  finally show ?thesis by simp
qed

lemma in_pass_bounds:
  assumes "in_pass st" "idx_list st = Some il" "curidx st < int (length il)"
  shows "0 \<le> curidx st" "curidx st < endidx_of st il" "endidx_of st il \<le> int (length (dataset st))"
    "wf_dataset (dataset st)" "lengths st = Some (get_length (dataset st))"
    "length il = length (dataset st)"
proof -
  from assms(1,2) have v: "valid_ordering il (dataset st)" and b: "1 \<le> batch_size st"
    and c: "0 \<le> curidx st" and w: "wf_dataset (dataset st)"
    and l: "lengths st = Some (get_length (dataset st))"
    by (simp_all add: in_pass_def)
  from v have n: "length il = length (dataset st)" by (rule valid_ordering_length)
  show "0 \<le> curidx st" by (rule c)
  show "curidx st < endidx_of st il" using b assms(3) by (simp add: endidx_of_def)
  show "endidx_of st il \<le> int (length (dataset st))" using n by (simp add: endidx_of_def)
  show "wf_dataset (dataset st)" by (rule w)
  show "lengths st = Some (get_length (dataset st))" by (rule l)
  show "length il = length (dataset st)" by (rule n)
qed

lemma not_both_tags:
  assumes "wf_dataset ds" "has_field True ds n" "has_field False ds n"
  shows False
proof -
  from assms(2) obtain ins where i: "ins \<in> set ds" by (auto simp add: has_field_def)
  from wf_has_field [OF assms(1) i, of True n] assms(2) obtain f where "map_of ins n = Some f" "is_target f"
    by auto
  moreover from wf_has_field [OF assms(1) i, of False n] assms(3) obtain f' where "map_of ins n = Some f'" "\<not> is_target f'"
    by auto
  ultimately show False by simp
qed

lemma render_in_padded:
  assumes "wf_dataset ds" "set sl \<subseteq> set ds" "has_field tgt ds n"
  shows "map (render_in (batch_padding sl n) n) sl = padded_rows sl n"
  unfolding padded_rows_def
proof (rule map_cong [OF refl])
  fix ins assume i: "ins \<in> set sl"
  with assms(2) have "ins \<in> set ds" by blast
  from wf_has_field [OF assms(1) this, of tgt n] assms(3) obtain f where f: "map_of ins n = Some f"
    by blast
  have "length_in n ins \<le> batch_padding sl n"
    unfolding batch_padding_def using i by (intro Max_ge) auto
  with f have "length (content f) \<le> batch_padding sl n"
    by (simp add: length_in_def origin_length_def)
  with f show "render_in (batch_padding sl n) n ins =
      field_content n ins @ replicate (batch_padding sl n - length_in n ins) 0"
    by (simp add: render_in_def field_content_def length_in_def origin_length_def pad_to_extends)
qed

lemma step_wf:
  assumes "in_pass st" "idx_list st = Some il" "curidx st < int (length il)"
  shows "\<exists>bx by.
     Batch_next st = (Inr (bx, by), st\<lparr>curidx := curidx st + endidx_of st il\<rparr>) \<and>
     Batch_next_fixed st = (Inr (bx, by), st\<lparr>curidx := endidx_of st il\<rparr>) \<and>
     build_batch (dataset st) (use_cuda st) (get_length (dataset st)) (curidx st) (endidx_of st il) =
       Inr (bx, by) \<and>
     (\<forall>n. map_of by n =
        (if has_field True (dataset st) n
         then Some (Matrix (placement (use_cuda st)) (padded_rows (slice_of st il) n))
         else None)) \<and>
     (\<forall>n. has_field False (dataset st) n \<longrightarrow>
        map_of bx (n @ ''_origin_len'') =
          Some (Vector (placement (use_cuda st)) (map (\<lambda>ins. int (length_in n ins)) (slice_of st il)))) \<and>
     (\<forall>k. k \<notin> (\<lambda>n. n @ ''_origin_len'') ` {n. has_field False (dataset st) n} \<longrightarrow>
        map_of bx k =
          (if has_field False (dataset st) k
           then Some (Matrix (placement (use_cuda st)) (padded_rows (slice_of st il) k))
           else None))"
proof -
  note b = in_pass_bounds [OF assms]
  have sub: "set (slice_of st il) \<subseteq> set (dataset st)"
    unfolding slice_of_def by (rule set_py_slice)
  from build_batch_wf [OF b(4) b(1) b(2) b(3), of "use_cuda st"] obtain bx "by" where r:
    "build_batch (dataset st) (use_cuda st) (get_length (dataset st)) (curidx st) (endidx_of st il) =
       Inr (bx, by)"
    "\<forall>n. map_of by n =
        (if has_field True (dataset st) n
         then Some (Matrix (placement (use_cuda st))
           (map (render_in (batch_padding (slice_of st il) n) n) (slice_of st il)))
         else None)"
    "\<forall>n. has_field False (dataset st) n \<longrightarrow>
        map_of bx (n @ ''_origin_len'') =
          Some (Vector (placement (use_cuda st)) (map (\<lambda>ins. int (length_in n ins)) (slice_of st il)))"
    "\<forall>k. k \<notin> (\<lambda>n. n @ ''_origin_len'') ` {n. has_field False (dataset st) n} \<longrightarrow>
        map_of bx k =
          (if has_field False (dataset st) k
           then Some (Matrix (placement (use_cuda st))
             (map (render_in (batch_padding (slice_of st il) k) k) (slice_of st il)))
           else None)"
    unfolding slice_of_def by blast
  have 1: "Batch_next st = (Inr (bx, by), st\<lparr>curidx := curidx st + endidx_of st il\<rparr>)"
    using assms(2,3) b(5) r(1) by (simp add: Batch_next_def)
  have 2: "Batch_next_fixed st = (Inr (bx, by), st\<lparr>curidx := endidx_of st il\<rparr>)"
    using assms(2,3) b(5) r(1) by (simp add: Batch_next_fixed_def)
  have 3: "map_of by n =
        (if has_field True (dataset st) n
         then Some (Matrix (placement (use_cuda st)) (padded_rows (slice_of st il) n))
         else None)" for n
    using r(2) render_in_padded [OF b(4) sub, of True n] by simp
  have 4: "map_of bx k =
          (if has_field False (dataset st) k
           then Some (Matrix (placement (use_cuda st)) (padded_rows (slice_of st il) k))
           else None)" if "k \<notin> (\<lambda>n. n @ ''_origin_len'') ` {n. has_field False (dataset st) n}" for k
    using r(4) that render_in_padded [OF b(4) sub, of False k] by simp
  from 1 2 3 4 r(1) r(3) show ?thesis by blast
qed


lemma step_batch:
  assumes "in_pass st" "idx_list st = Some il" "fst (Batch_next st) = Inr (bx, by)"
  shows "curidx st < int (length il)"
    and "\<forall>n. map_of by n =
        (if has_field True (dataset st) n
         then Some (Matrix (placement (use_cuda st)) (padded_rows (slice_of st il) n))
         else None)"
    and "\<forall>n. has_field False (dataset st) n \<longrightarrow>
        map_of bx (n @ ''_origin_len'') =
          Some (Vector (placement (use_cuda st)) (map (\<lambda>ins. int (length_in n ins)) (slice_of st il)))"
    and "\<forall>k. k \<notin> (\<lambda>n. n @ ''_origin_len'') ` {n. has_field False (dataset st) n} \<longrightarrow>
        map_of bx k =
          (if has_field False (dataset st) k
           then Some (Matrix (placement (use_cuda st)) (padded_rows (slice_of st il) k))
           else None)"
proof -
  show c: "curidx st < int (length il)"
  proof (rule ccontr)
    assume "\<not> curidx st < int (length il)"
    with assms(2) have "fst (Batch_next st) = Inl StopIteration" by (simp add: Batch_next_def)
    with assms(3) show False by simp
  qed
  from step_wf [OF assms(1,2) c] assms(3)
  show "\<forall>n. map_of by n =
        (if has_field True (dataset st) n
         then Some (Matrix (placement (use_cuda st)) (padded_rows (slice_of st il) n))
         else None)"
    and "\<forall>n. has_field False (dataset st) n \<longrightarrow>
        map_of bx (n @ ''_origin_len'') =
          Some (Vector (placement (use_cuda st)) (map (\<lambda>ins. int (length_in n ins)) (slice_of st il)))"
    and "\<forall>k. k \<notin> (\<lambda>n. n @ ''_origin_len'') ` {n. has_field False (dataset st) n} \<longrightarrow>
        map_of bx k =
          (if has_field False (dataset st) k
           then Some (Matrix (placement (use_cuda st)) (padded_rows (slice_of st il) k))
           else None)"
    by auto
qed

lemma slice_of_positions:
  assumes "in_pass st" "idx_list st = Some il" "curidx st < int (length il)"
  shows "slice_of st il = map (\<lambda>i. dataset st ! nat i) (py_range (curidx st) (endidx_of st il))"
    and "length (slice_of st il) = nat (endidx_of st il - curidx st)"
    and "set (slice_of st il) \<subseteq> set (dataset st)"
    and "slice_of st il \<noteq> []"
proof -
  note b = in_pass_bounds [OF assms]
  from b(2) have le: "curidx st \<le> endidx_of st il" by simp
  show "slice_of st il = map (\<lambda>i. dataset st ! nat i) (py_range (curidx st) (endidx_of st il))"
    unfolding slice_of_def by (rule py_range_slice [OF b(1) le b(3), symmetric])
  show l: "length (slice_of st il) = nat (endidx_of st il - curidx st)"
    unfolding slice_of_def by (rule length_py_slice [OF b(1) le b(3)])
  show "set (slice_of st il) \<subseteq> set (dataset st)"
    unfolding slice_of_def by (rule set_py_slice)
  from l b(2) show "slice_of st il \<noteq> []" by auto
qed

lemma batch_padding_mono:
  assumes "set sl \<subseteq> set ds" "sl \<noteq> []"
  shows "batch_padding sl n \<le> batch_padding ds n"
  unfolding batch_padding_def using assms by (intro Max_mono) auto

lemma build_batch_error:
  assumes "build_batch ds cuda ls c e = Inl err"
  shows "err = ValueError \<or> err = KeyError \<or> err = IndexError \<or> err = RuntimeError"
proof (cases "padding_length_of ls c e")
  case (Inl e1)
  with assms have "err = e1" by (simp add: build_batch_def)
  with Inl padding_length_of_error show ?thesis by blast
next
  case pl: (Inr padding_length)
  show ?thesis
  proof (cases "collect ds padding_length (py_range c e) ([], [])")
    case (Inl e2)
    with assms pl have "err = e2" by (simp add: build_batch_def)
    with Inl collect_error show ?thesis by blast
  next
    case (Inr lists)
    obtain lx ly where lists: "lists = (lx, ly)" by (cases lists)
    show ?thesis
    proof (cases "stack_all cuda lx")
      case (Inl e3)
      with assms pl Inr lists have "err = e3" by (simp add: build_batch_def)
      with Inl stack_all_error show ?thesis by blast
    next
      case bx: (Inr batch_x)
      show ?thesis
      proof (cases "stack_all cuda ly")
        case (Inl e4)
        with assms pl Inr lists bx have "err = e4" by (simp add: build_batch_def)
        with Inl stack_all_error show ?thesis by blast
      next
        case "by": (Inr batch_y)
        show ?thesis
        proof (cases "origin_len_entries cuda (origin_lengths_of ls c e) (map fst batch_x) []")
          case (Inl e5)
          with assms pl Inr lists bx "by" have "err = e5" by (simp add: build_batch_def)
          with Inl origin_len_entries_error show ?thesis by blast
        next
          case bol: (Inr batch_origin_length)
          with assms pl Inr lists bx "by" show ?thesis by (simp add: build_batch_def)
        qed
      qed
    qed
  qed
qed

lemma stop_iff:
  assumes "idx_list st = Some il"
  shows "fst (Batch_next st) = Inl StopIteration \<longleftrightarrow> int (length il) \<le> curidx st"
proof
  assume "int (length il) \<le> curidx st"
  with assms show "fst (Batch_next st) = Inl StopIteration" by (simp add: Batch_next_def)
next
  assume s: "fst (Batch_next st) = Inl StopIteration"
  show "int (length il) \<le> curidx st"
  proof (rule ccontr)
    assume n: "\<not> int (length il) \<le> curidx st"
    show False
    proof (cases "lengths st")
      case None
      with assms n s show False by (simp add: Batch_next_def)
    next
      case (Some ls)
      show False
      proof (cases "build_batch (dataset st) (use_cuda st) ls (curidx st) (endidx_of st il)")
        case (Inl err)
        with assms n s Some have "err = StopIteration" by (simp add: Batch_next_def)
        with build_batch_error [OF Inl] show False by simp
      next
        case (Inr b)
        with assms n s Some show False by (simp add: Batch_next_def)
      qed
    qed
  qed
qed

lemma no_suffix_text: "''text'' \<noteq> n @ ''_origin_len''"
proof
  assume "''text'' = n @ ''_origin_len''"
  then have "length ''text'' = length (n @ ''_origin_len'')" by (rule arg_cong)
  then show False by simp
qed

section \<open>Passes\<close>

lemma next_state:
  assumes "idx_list s = Some il" "fst (Batch_next s) = Inr b"
  shows "snd (Batch_next s) = s\<lparr>curidx := curidx s + endidx_of s il\<rparr>"
    and "curidx s < int (length il)"
  using assms by (auto simp add: Batch_next_def split: if_splits option.splits sum.splits)

lemma next_error_state: "fst (Batch_next s) = Inl e \<Longrightarrow> snd (Batch_next s) = s"
  by (auto simp add: Batch_next_def split: if_splits option.splits sum.splits)

lemma in_pass_step:
  assumes "in_pass st"
  shows "in_pass (snd (Batch_next st))"
proof (cases "fst (Batch_next st)")
  case (Inl e)
  with next_error_state assms show ?thesis by metis
next
  case (Inr b)
  from assms obtain il where il: "idx_list st = Some il"
    by (auto simp add: in_pass_def split: option.splits)
  note n = next_state [OF il Inr]
  note bd = in_pass_bounds [OF assms il n(2)]
  from bd(1,2) have "0 \<le> curidx st + endidx_of st il" by simp
  with assms n(1) il show ?thesis by (simp add: in_pass_def)
qed

lemma drain_stop:
  "fst (step s) = Inl StopIteration \<Longrightarrow> drain step s acc = Some (Inr (rev acc))"
  by (subst drain.simps) simp

lemma drain_error:
  "fst (step s) = Inl e \<Longrightarrow> e \<noteq> StopIteration \<Longrightarrow> drain step s acc = Some (Inl e)"
  by (subst drain.simps) simp

lemma drain_step:
  "fst (step s) = Inr b \<Longrightarrow> drain step s acc = drain step (snd (step s)) (b # acc)"
  by (subst drain.simps) simp

lemma drain_terminates:
  assumes "idx_list s = Some il" "0 \<le> curidx s" "1 \<le> batch_size s"
  shows "\<exists>r. drain Batch_next s acc = Some r"
  using assms
proof (induction "nat (int (length il) - curidx s)" arbitrary: s acc rule: less_induct)
  case less
  show ?case
  proof (cases "fst (Batch_next s)")
    case (Inl e)
    then show ?thesis by (cases "e = StopIteration") (simp_all add: drain_stop drain_error)
  next
    case (Inr b)
    note n = next_state [OF less.prems(1) Inr]
    let ?s = "snd (Batch_next s)"
    have e: "curidx s < endidx_of s il"
      using n(2) less.prems(3) by (simp add: endidx_of_def)
    have 1: "idx_list ?s = Some il" using n(1) less.prems(1) by simp
    have 2: "0 \<le> curidx ?s" using n(1) e less.prems(2) by simp
    have 3: "1 \<le> batch_size ?s" using n(1) less.prems(3) by simp
    have "nat (int (length il) - curidx ?s) < nat (int (length il) - curidx s)"
      using n e less.prems(2) by simp
    from less.hyps [OF this 1 2 3, of "b # acc"] show ?thesis
      using Inr by (simp add: drain_step [of Batch_next s b acc])
  qed
qed

lemma drain_wf:
  assumes "in_pass s"
  shows "\<exists>bs. drain Batch_next s acc = Some (Inr bs)"
proof -
  from assms obtain il where il: "idx_list s = Some il"
    by (auto simp add: in_pass_def split: option.splits)
  from assms il show ?thesis
  proof (induction "nat (int (length il) - curidx s)" arbitrary: s acc rule: less_induct)
    case less
    show ?case
    proof (cases "curidx s < int (length il)")
      case False
      with less.prems(2) have "fst (Batch_next s) = Inl StopIteration"
        by (simp add: stop_iff)
      then show ?thesis by (simp add: drain_stop)
    next
      case True
      from step_wf [OF less.prems True] obtain b where
        b: "Batch_next s = (Inr b, s\<lparr>curidx := curidx s + endidx_of s il\<rparr>)" by blast
      let ?s = "s\<lparr>curidx := curidx s + endidx_of s il\<rparr>"
      note bd = in_pass_bounds [OF less.prems True]
      have 1: "in_pass ?s" using in_pass_step [OF less.prems(1)] b by simp
      have 2: "idx_list ?s = Some il" using less.prems(2) by simp
      have "nat (int (length il) - curidx ?s) < nat (int (length il) - curidx s)"
        using True bd(1,2) by simp
      from less.hyps [OF this 1 2, of "b # acc"] show ?thesis
        using b by (simp add: drain_step [of Batch_next s b acc])
    qed
  qed
qed

lemma in_pass_iter:
  assumes "well_formed st"
  shows "in_pass (Batch_iter st)"
  using assms by (simp add: well_formed_def in_pass_def Batch_iter_def case_prod_beta)

lemma fixed_stop:
  "idx_list s = Some il \<Longrightarrow> int (length il) \<le> curidx s \<Longrightarrow>
     fst (Batch_next_fixed s) = Inl StopIteration"
  by (simp add: Batch_next_fixed_def)

lemma ceiling_one_chunk:
  fixes n b :: int
  assumes "0 < n" "n \<le> b"
  shows "\<lceil>real_of_int n / real_of_int b\<rceil> = 1"
  using assms by (simp add: ceiling_eq_iff field_simps)

lemma ceiling_two_chunks:
  fixes n b :: int
  assumes "0 < b" "b < n" "n \<le> 2 * b"
  shows "\<lceil>real_of_int n / real_of_int b\<rceil> = 2"
  using assms by (simp add: ceiling_eq_iff field_simps)

lemma py_range_append: "a \<le> b \<Longrightarrow> b \<le> c \<Longrightarrow> py_range a b @ py_range b c = py_range a c"
  unfolding py_range_def using upto_split2 [of a "b - 1" "c - 1"]
  by (cases "a = b") (simp_all)

lemma step_holds:
  assumes "in_pass st" "idx_list st = Some il" "curidx st < int (length il)"
  shows "\<exists>b.
     Batch_next st = (Inr b, st\<lparr>curidx := curidx st + endidx_of st il\<rparr>) \<and>
     Batch_next_fixed st = (Inr b, st\<lparr>curidx := endidx_of st il\<rparr>) \<and>
     build_batch (dataset st) (use_cuda st) (get_length (dataset st)) (curidx st) (endidx_of st il) =
       Inr b \<and>
     holds_instances (dataset st) (use_cuda st)
       (py_slice (dataset st) (curidx st) (endidx_of st il)) b"
proof -
  from step_wf [OF assms] obtain bx "by" where r:
    "Batch_next st = (Inr (bx, by), st\<lparr>curidx := curidx st + endidx_of st il\<rparr>)"
    "Batch_next_fixed st = (Inr (bx, by), st\<lparr>curidx := endidx_of st il\<rparr>)"
    "build_batch (dataset st) (use_cuda st) (get_length (dataset st)) (curidx st) (endidx_of st il) =
       Inr (bx, by)"
    "\<forall>n. map_of by n =
        (if has_field True (dataset st) n
         then Some (Matrix (placement (use_cuda st)) (padded_rows (slice_of st il) n))
         else None)"
    "\<forall>n. has_field False (dataset st) n \<longrightarrow>
        map_of bx (n @ ''_origin_len'') =
          Some (Vector (placement (use_cuda st)) (map (\<lambda>ins. int (length_in n ins)) (slice_of st il)))"
    "\<forall>k. k \<notin> (\<lambda>n. n @ ''_origin_len'') ` {n. has_field False (dataset st) n} \<longrightarrow>
        map_of bx k =
          (if has_field False (dataset st) k
           then Some (Matrix (placement (use_cuda st)) (padded_rows (slice_of st il) k))
           else None)"
    by blast
  have "holds_instances (dataset st) (use_cuda st)
       (py_slice (dataset st) (curidx st) (endidx_of st il)) (bx, by)"
    using r(4,5,6) by (simp add: holds_instances_def slice_of_def)
  with r(1,2,3) show ?thesis by blast
qed

lemma py_slice_all: "py_slice xs 0 (int (length xs)) = xs"
  by (simp add: py_slice_def slice_bound_def)

lemma py_slice_split:
  assumes "0 \<le> b" "b \<le> int (length xs)"
  shows "py_slice xs 0 b @ py_slice xs b (int (length xs)) = xs"
  using assms by (simp add: py_slice_def slice_bound_def Let_def)

lemma fixed_same_outcome: "fst (Batch_next_fixed s) = fst (Batch_next s)"
  by (simp add: Batch_next_def Batch_next_fixed_def split: option.splits sum.splits)

lemma fixed_state:
  assumes "idx_list s = Some il" "fst (Batch_next s) = Inr b"
  shows "snd (Batch_next_fixed s) = s\<lparr>curidx := endidx_of s il\<rparr>"
  using assms
  by (auto simp add: Batch_next_def Batch_next_fixed_def split: if_splits option.splits sum.splits)

lemma steps_to_grows:
  assumes "steps_to s s'" "0 \<le> curidx s" "1 \<le> batch_size s"
  shows "curidx s < curidx s' \<and> batch_size s' = batch_size s"
proof -
  from assms(1) obtain b where b: "fst (Batch_next s) = Inr b" and s': "s' = snd (Batch_next s)"
    by (auto simp add: steps_to_def split: sum.splits)
  from b obtain il where il: "idx_list s = Some il"
    by (cases "idx_list s") (simp_all add: Batch_next_def)
  note n = next_state [OF il b]
  have "curidx s < endidx_of s il" using n(2) assms(3) by (simp add: endidx_of_def)
  with n(1) s' assms(2) show ?thesis by simp
qed

lemma steps_mono:
  assumes "rtranclp steps_to s s'" "0 \<le> curidx s" "1 \<le> batch_size s"
  shows "curidx s \<le> curidx s' \<and> batch_size s' = batch_size s"
  using assms
proof (induction rule: rtranclp_induct)
  case base
  then show ?case by simp
next
  case (step y z)
  then have "curidx s \<le> curidx y" "batch_size y = batch_size s" by simp_all
  with steps_to_grows [OF step.hyps(2)] step.prems show ?case by simp
qed

section \<open>Entering a pass\<close>

text \<open>
  Claim C8. Entering a pass calls the sampler on the dataset and stores the ordering it returns,
  sets the cursor to 0 and stores the per-field length sequences of the whole dataset, whatever
  cursor, ordering and lengths the iterator held before: entering again during a pass starts from
  the same reset state. The steps of the pass change neither the ordering nor the stored lengths.
\<close>

theorem iter_resets:
  "idx_list (Batch_iter st) = Some (fst (sampler st (sampler_state st) (dataset st))) \<and>
   sampler_state (Batch_iter st) = snd (sampler st (sampler_state st) (dataset st)) \<and>
   curidx (Batch_iter st) = 0 \<and>
   lengths (Batch_iter st) = Some (get_length (dataset st)) \<and>
   dataset (Batch_iter st) = dataset st \<and> sampler (Batch_iter st) = sampler st \<and>
   Batch_iter (st\<lparr>idx_list := il, curidx := c, lengths := ls\<rparr>) = Batch_iter st \<and>
   idx_list (snd (Batch_next st)) = idx_list st \<and> lengths (snd (Batch_next st)) = lengths st"
  by (simp add: Batch_iter_def Batch_next_def split: prod.split option.split sum.split)

section \<open>The scenario of the specification\<close>

text \<open>
  Claim C5. On three instances whose \<^verbatim>\<open>text\<close> has 4, 7 and 2 tokens, with batch size 2 and the
  identity sampler, one full pass yields exactly two batches: the first holds instances 0 and 1
  with \<^verbatim>\<open>text\<close> padded to length 7 and \<^verbatim>\<open>text_origin_len = [4, 7]\<close>, the second holds instance 2
  alone with \<^verbatim>\<open>text\<close> at length 2 and \<^verbatim>\<open>text_origin_len = [2]\<close>.
\<close>

theorem scenario_two_batches:
  "run_pass (Batch_init (three_texts [a0, a1, a2, a3] [b0, b1, b2, b3, b4, b5, b6] [c0, c1])
      2 SeqSampler () False) =
   Some (Inr
     [([(''text'', Matrix CPU [[a0, a1, a2, a3, 0, 0, 0], [b0, b1, b2, b3, b4, b5, b6]]),
        (''text_origin_len'', Vector CPU [4, 7])],
       [(''label'', Matrix CPU [[0], [1]])]),
      ([(''text'', Matrix CPU [[c0, c1]]),
        (''text_origin_len'', Vector CPU [2])],
       [(''label'', Matrix CPU [[0]])])])"
  by code_simp

section \<open>The number of batches of a pass\<close>

text \<open>
  Claim C1 asks for \<open>ceil(N/B)\<close> batches that hold all \<open>N\<close> instances. On the three instances of
  the running example with batch size 1 the pass of the code yields two batches and never the
  third instance: after the second step the cursor is \<open>1 + 2 = 3\<close>. The iterator that sets the
  cursor to the end of the slice yields the three batches.
\<close>

theorem pass_batch_size_one_loses_instance:
  "run_pass (Batch_init example_data 1 SeqSampler () False) =
     Some (Inr
       [([(''text'', Matrix CPU [[0, 1, 2, 3]]), (''text_origin_len'', Vector CPU [4])],
         [(''label'', Matrix CPU [[0]])]),
        ([(''text'', Matrix CPU [[4, 5, 2, 6, 7, 8, 9]]), (''text_origin_len'', Vector CPU [7])],
         [(''label'', Matrix CPU [[1]])])]) \<and>
   run_pass_fixed (Batch_init example_data 1 SeqSampler () False) =
     Some (Inr
       [([(''text'', Matrix CPU [[0, 1, 2, 3]]), (''text_origin_len'', Vector CPU [4])],
         [(''label'', Matrix CPU [[0]])]),
        ([(''text'', Matrix CPU [[4, 5, 2, 6, 7, 8, 9]]), (''text_origin_len'', Vector CPU [7])],
         [(''label'', Matrix CPU [[1]])]),
        ([(''text'', Matrix CPU [[10, 11]]), (''text_origin_len'', Vector CPU [2])],
         [(''label'', Matrix CPU [[0]])])])"
  by code_simp

section \<open>The padding length of a batch\<close>

text \<open>
  Claim C3. In every batch of a pass on admitted inputs, the padding length of every field of the
  dataset is the largest true length of that field among the instances of the slice of that
  batch, not more than (and, as the example shows, not always equal to) the largest length in
  the whole dataset, and the tensor of the field in the batch holds one row per instance of the
  slice, each of them the tokens of the instance filled up with 0 to exactly that length. A
  target field is found under its name in the target mapping, an input field under its name in
  the input mapping (unless its name is also the name of a length entry, which then replaces it).
\<close>

theorem padding_is_batch_maximum:
  assumes "in_pass st" and "idx_list st = Some il"
    and "fst (Batch_next st) = Inr (batch_x, batch_y)"
    and "has_field tgt (dataset st) name"
  shows "(\<exists>padding_length.
        padding_length_of (get_length (dataset st)) (curidx st) (endidx_of st il) =
          Inr padding_length \<and>
        map_of padding_length name = Some (batch_padding (slice_of st il) name)) \<and>
     batch_padding (slice_of st il) name = Max (set (map (length_in name) (slice_of st il))) \<and>
     (\<forall>row \<in> set (padded_rows (slice_of st il) name).
        length row = batch_padding (slice_of st il) name) \<and>
     length (padded_rows (slice_of st il) name) = nat (endidx_of st il - curidx st) \<and>
     batch_padding (slice_of st il) name \<le> batch_padding (dataset st) name \<and>
     (tgt \<longrightarrow>
        map_of batch_y name =
          Some (Matrix (placement (use_cuda st)) (padded_rows (slice_of st il) name))) \<and>
     (\<not> tgt \<and> name \<notin> (\<lambda>n. n @ ''_origin_len'') ` {n. has_field False (dataset st) n} \<longrightarrow>
        map_of batch_x name =
          Some (Matrix (placement (use_cuda st)) (padded_rows (slice_of st il) name)))"
proof -
  note s = step_batch [OF assms(1,2,3)]
  note p = slice_of_positions [OF assms(1,2) s(1)]
  note bd = in_pass_bounds [OF assms(1,2) s(1)]
  have 0: "\<exists>padding_length.
      padding_length_of (get_length (dataset st)) (curidx st) (endidx_of st il) =
        Inr padding_length \<and>
      map_of padding_length name = Some (batch_padding (slice_of st il) name)"
    using padding_wf [OF bd(4) bd(1) bd(2) bd(3)] has_field_name [OF assms(4)]
    by (simp add: map_of_tabulate slice_of_def)
  have 1: "batch_padding (slice_of st il) name = Max (set (map (length_in name) (slice_of st il)))"
    by (simp add: batch_padding_def)
  have 2: "\<forall>row \<in> set (padded_rows (slice_of st il) name).
      length row = batch_padding (slice_of st il) name"
  proof
    fix row assume "row \<in> set (padded_rows (slice_of st il) name)"
    then obtain ins where i: "ins \<in> set (slice_of st il)"
      and row: "row = field_content name ins @
          replicate (batch_padding (slice_of st il) name - length_in name ins) 0"
      by (auto simp add: padded_rows_def)
    have "length_in name ins \<le> batch_padding (slice_of st il) name"
      unfolding batch_padding_def using i by (intro Max_ge) auto
    moreover have "length (field_content name ins) = length_in name ins"
      by (simp add: field_content_def length_in_def origin_length_def split: option.splits)
    ultimately show "length row = batch_padding (slice_of st il) name"
      using row by simp
  qed
  have 3: "length (padded_rows (slice_of st il) name) = nat (endidx_of st il - curidx st)"
    using p(2) by (simp add: padded_rows_def)
  have 4: "batch_padding (slice_of st il) name \<le> batch_padding (dataset st) name"
    by (rule batch_padding_mono [OF p(3) p(4)])
  have 5: "tgt \<longrightarrow> map_of batch_y name =
      Some (Matrix (placement (use_cuda st)) (padded_rows (slice_of st il) name))"
    using s(2) assms(4) by auto
  have 6: "\<not> tgt \<and> name \<notin> (\<lambda>n. n @ ''_origin_len'') ` {n. has_field False (dataset st) n} \<longrightarrow>
      map_of batch_x name =
        Some (Matrix (placement (use_cuda st)) (padded_rows (slice_of st il) name))"
    using s(4) assms(4) by auto
  from 0 1 2 3 4 5 6 show ?thesis by blast
qed

text \<open>At the second step of the example the batch is padded to 2, the dataset's maximum is 7.\<close>

theorem padding_is_batch_maximum_witness:
  "in_pass second_step \<and> idx_list second_step = Some [0, 1, 2] \<and>
   fst (Batch_next second_step) =
     Inr ([(''text'', Matrix CPU [[10, 11]]), (''text_origin_len'', Vector CPU [2])],
          [(''label'', Matrix CPU [[0]])]) \<and>
   has_field False (dataset second_step) ''text'' \<and>
   map_of [(''text'', Matrix CPU [[10, 11]]), (''text_origin_len'', Vector CPU [2])] ''text'' =
     Some (Matrix (placement (use_cuda second_step)) (padded_rows (slice_of second_step [0, 1, 2]) ''text'')) \<and>
   padded_rows (slice_of second_step [0, 1, 2]) ''text'' = [[10, 11]] \<and>
   batch_padding (slice_of second_step [0, 1, 2]) ''text'' = 2 \<and>
   batch_padding (dataset second_step) ''text'' = 7"
proof -
  have h1: "in_pass second_step" by code_simp
  have h2: "idx_list second_step = Some [0, 1, 2]" by code_simp
  have h3: "fst (Batch_next second_step) =
     Inr ([(''text'', Matrix CPU [[10, 11]]), (''text_origin_len'', Vector CPU [2])],
          [(''label'', Matrix CPU [[0]])])" by code_simp
  have h4: "has_field False (dataset second_step) ''text''" by code_simp
  have h5: "''text'' \<notin> (\<lambda>n. n @ ''_origin_len'') ` {n. has_field False (dataset second_step) n}"
    using no_suffix_text by blast
  have e1: "padded_rows (slice_of second_step [0, 1, 2]) ''text'' = [[10, 11]]" by code_simp
  have e2: "batch_padding (slice_of second_step [0, 1, 2]) ''text'' = 2" by code_simp
  have e3: "batch_padding (dataset second_step) ''text'' = 7" by code_simp
  from padding_is_batch_maximum [OF h1 h2 h3 h4] h5
  have "map_of [(''text'', Matrix CPU [[10, 11]]), (''text_origin_len'', Vector CPU [2])] ''text'' =
     Some (Matrix (placement (use_cuda second_step)) (padded_rows (slice_of second_step [0, 1, 2]) ''text''))"
    by blast
  with h1 h2 h3 h4 e1 e2 e3 show ?thesis by blast
qed

section \<open>The original lengths\<close>

text \<open>
  Claim C4. In every batch of a pass on admitted inputs, for every input field the input mapping
  holds, under the name of the field followed by \<^verbatim>\<open>_origin_len\<close>, an integer tensor with one
  entry per instance of the batch, in the order of the slice: the true length of the field in
  that instance. The slice is the one of line 57, the instances at the positions
  \<^verbatim>\<open>range(curidx, endidx)\<close> of the dataset, whose tensors are the rows of the batch. The
  names of the input mapping are the input fields and these length entries.
\<close>

theorem origin_len_attached:
  assumes "in_pass st" and "idx_list st = Some il"
    and "fst (Batch_next st) = Inr (batch_x, batch_y)"
    and "has_field False (dataset st) name"
  shows "map_of batch_x (name @ ''_origin_len'') =
       Some (Vector (placement (use_cuda st))
         (map (\<lambda>ins. int (length_in name ins)) (slice_of st il))) \<and>
     length (map (\<lambda>ins. int (length_in name ins)) (slice_of st il)) =
       nat (endidx_of st il - curidx st) \<and>
     slice_of st il = map (\<lambda>i. dataset st ! nat i) (py_range (curidx st) (endidx_of st il)) \<and>
     dom (map_of batch_x) =
       {n. has_field False (dataset st) n} \<union>
       (\<lambda>n. n @ ''_origin_len'') ` {n. has_field False (dataset st) n}"
proof -
  note s = step_batch [OF assms(1,2,3)]
  note p = slice_of_positions [OF assms(1,2) s(1)]
  have 1: "map_of batch_x (name @ ''_origin_len'') =
       Some (Vector (placement (use_cuda st))
         (map (\<lambda>ins. int (length_in name ins)) (slice_of st il)))"
    using s(3) assms(4) by blast
  have 2: "length (map (\<lambda>ins. int (length_in name ins)) (slice_of st il)) =
       nat (endidx_of st il - curidx st)"
    using p(2) by simp
  have 3: "dom (map_of batch_x) =
       {n. has_field False (dataset st) n} \<union>
       (\<lambda>n. n @ ''_origin_len'') ` {n. has_field False (dataset st) n}"
  proof (rule set_eqI)
    fix k
    show "k \<in> dom (map_of batch_x) \<longleftrightarrow>
        k \<in> {n. has_field False (dataset st) n} \<union>
          (\<lambda>n. n @ ''_origin_len'') ` {n. has_field False (dataset st) n}"
    proof (cases "k \<in> (\<lambda>n. n @ ''_origin_len'') ` {n. has_field False (dataset st) n}")
      case True
      then obtain n where "has_field False (dataset st) n" "k = n @ ''_origin_len''" by blast
      with s(3) have "map_of batch_x k \<noteq> None" by simp
      with True show ?thesis by (simp add: dom_def)
    next
      case False
      with s(4) have "map_of batch_x k =
          (if has_field False (dataset st) k
           then Some (Matrix (placement (use_cuda st)) (padded_rows (slice_of st il) k))
           else None)" by blast
      with False show ?thesis by (simp add: dom_def)
    qed
  qed
  from 1 2 3 p(1) show ?thesis by blast
qed

text \<open>At the first step of the example the lengths are 4 and 7.\<close>

theorem origin_len_attached_witness:
  "in_pass first_step \<and> idx_list first_step = Some [0, 1, 2] \<and>
   fst (Batch_next first_step) =
     Inr ([(''text'', Matrix CPU [[0, 1, 2, 3, 0, 0, 0], [4, 5, 2, 6, 7, 8, 9]]),
           (''text_origin_len'', Vector CPU [4, 7])],
          [(''label'', Matrix CPU [[0], [1]])]) \<and>
   has_field False (dataset first_step) ''text'' \<and>
   map_of [(''text'', Matrix CPU [[0, 1, 2, 3, 0, 0, 0], [4, 5, 2, 6, 7, 8, 9]]),
           (''text_origin_len'', Vector CPU [4, 7])] (''text'' @ ''_origin_len'') =
     Some (Vector (placement (use_cuda first_step))
       (map (\<lambda>ins. int (length_in ''text'' ins)) (slice_of first_step [0, 1, 2]))) \<and>
   map (\<lambda>ins. int (length_in ''text'' ins)) (slice_of first_step [0, 1, 2]) = [4, 7] \<and>
   nat (endidx_of first_step [0, 1, 2] - curidx first_step) = 2"
proof -
  have h1: "in_pass first_step" by code_simp
  have h2: "idx_list first_step = Some [0, 1, 2]" by code_simp
  have h3: "fst (Batch_next first_step) =
     Inr ([(''text'', Matrix CPU [[0, 1, 2, 3, 0, 0, 0], [4, 5, 2, 6, 7, 8, 9]]),
           (''text_origin_len'', Vector CPU [4, 7])],
          [(''label'', Matrix CPU [[0], [1]])])" by code_simp
  have h4: "has_field False (dataset first_step) ''text''" by code_simp
  have e1: "map (\<lambda>ins. int (length_in ''text'' ins)) (slice_of first_step [0, 1, 2]) = [4, 7]"
    by code_simp
  have e2: "nat (endidx_of first_step [0, 1, 2] - curidx first_step) = 2" by code_simp
  from origin_len_attached [OF h1 h2 h3 h4] h1 h2 h3 h4 e1 e2 show ?thesis by blast
qed

section \<open>The target mapping\<close>

text \<open>
  Claim C6. In every batch of a pass on admitted inputs, the names of the target mapping are
  the target fields of the dataset and every entry is the stacked tensor of that field: no name
  followed by \<^verbatim>\<open>_origin_len\<close> is in the target mapping unless it is itself a target field. The
  length tensors are in the input mapping only, each under the name of an input field followed by
  \<^verbatim>\<open>_origin_len\<close>, and never for a target field.
\<close>

theorem target_mapping_has_no_origin_len:
  assumes "in_pass st" and "idx_list st = Some il"
    and "fst (Batch_next st) = Inr (batch_x, batch_y)"
  shows "dom (map_of batch_y) = {n. has_field True (dataset st) n} \<and>
     (\<forall>n t. map_of batch_y n = Some t \<longrightarrow>
        t = Matrix (placement (use_cuda st)) (padded_rows (slice_of st il) n)) \<and>
     (\<forall>n. \<not> has_field True (dataset st) (n @ ''_origin_len'') \<longrightarrow>
        map_of batch_y (n @ ''_origin_len'') = None) \<and>
     (\<forall>n d v. has_field True (dataset st) n \<longrightarrow>
        map_of batch_x (n @ ''_origin_len'') \<noteq> Some (Vector d v)) \<and>
     (\<forall>k d v. map_of batch_x k = Some (Vector d v) \<longrightarrow>
        (\<exists>n. has_field False (dataset st) n \<and> k = n @ ''_origin_len''))"
proof -
  note s = step_batch [OF assms(1,2,3)]
  from assms(1) have wf: "wf_dataset (dataset st)" by (simp add: in_pass_def)
  have 1: "dom (map_of batch_y) = {n. has_field True (dataset st) n}"
    using s(2) by (auto simp add: dom_def)
  have 2: "\<forall>n t. map_of batch_y n = Some t \<longrightarrow>
        t = Matrix (placement (use_cuda st)) (padded_rows (slice_of st il) n)"
    using s(2) by (auto split: if_splits)
  have 3: "\<forall>n. \<not> has_field True (dataset st) (n @ ''_origin_len'') \<longrightarrow>
        map_of batch_y (n @ ''_origin_len'') = None"
    using s(2) by simp
  have 5: "\<forall>k d v. map_of batch_x k = Some (Vector d v) \<longrightarrow>
        (\<exists>n. has_field False (dataset st) n \<and> k = n @ ''_origin_len'')"
  proof (intro allI impI)
    fix k d v assume v: "map_of batch_x k = Some (Vector d v)"
    show "\<exists>n. has_field False (dataset st) n \<and> k = n @ ''_origin_len''"
    proof (rule ccontr)
      assume "\<not> (\<exists>n. has_field False (dataset st) n \<and> k = n @ ''_origin_len'')"
      then have "k \<notin> (\<lambda>n. n @ ''_origin_len'') ` {n. has_field False (dataset st) n}" by blast
      with s(4) have "map_of batch_x k =
          (if has_field False (dataset st) k
           then Some (Matrix (placement (use_cuda st)) (padded_rows (slice_of st il) k))
           else None)" by blast
      with v show False by (simp split: if_splits)
    qed
  qed
  have 4: "\<forall>n d v. has_field True (dataset st) n \<longrightarrow>
        map_of batch_x (n @ ''_origin_len'') \<noteq> Some (Vector d v)"
  proof (intro allI impI notI)
    fix n d v assume t: "has_field True (dataset st) n"
      and "map_of batch_x (n @ ''_origin_len'') = Some (Vector d v)"
    with 5 obtain m where m: "has_field False (dataset st) m" "n @ ''_origin_len'' = m @ ''_origin_len''"
      by blast
    then have "m = n" by simp
    with m(1) t not_both_tags [OF wf] show False by blast
  qed
  from 1 2 3 4 5 show ?thesis by blast
qed

text \<open>At the first step of the example \<^verbatim>\<open>label\<close> is the only name of the target mapping.\<close>

theorem target_mapping_has_no_origin_len_witness:
  "in_pass first_step \<and> idx_list first_step = Some [0, 1, 2] \<and>
   fst (Batch_next first_step) =
     Inr ([(''text'', Matrix CPU [[0, 1, 2, 3, 0, 0, 0], [4, 5, 2, 6, 7, 8, 9]]),
           (''text_origin_len'', Vector CPU [4, 7])],
          [(''label'', Matrix CPU [[0], [1]])]) \<and>
   \<not> has_field True (dataset first_step) (''label'' @ ''_origin_len'') \<and>
   map_of [(''label'', Matrix CPU [[0], [1]])] (''label'' @ ''_origin_len'') = None \<and>
   dom (map_of [(''label'', Matrix CPU [[0::int], [1]])]) = {n. has_field True (dataset first_step) n}"
proof -
  have h1: "in_pass first_step" by code_simp
  have h2: "idx_list first_step = Some [0, 1, 2]" by code_simp
  have h3: "fst (Batch_next first_step) =
     Inr ([(''text'', Matrix CPU [[0, 1, 2, 3, 0, 0, 0], [4, 5, 2, 6, 7, 8, 9]]),
           (''text_origin_len'', Vector CPU [4, 7])],
          [(''label'', Matrix CPU [[0], [1]])])" by code_simp
  have h4: "\<not> has_field True (dataset first_step) (''label'' @ ''_origin_len'')" by code_simp
  from target_mapping_has_no_origin_len [OF h1 h2 h3] h1 h2 h3 h4 show ?thesis by blast
qed

section \<open>The end of a pass\<close>

text \<open>
  Claim C7. With an index ordering in place, a step raises \<^verbatim>\<open>StopIteration\<close> if and only if the
  cursor is at or beyond the length of the ordering; the iterator is then left as it was and no
  batch is returned. In every other case of a pass on admitted inputs the step returns a batch
  (and moves the cursor).
\<close>

theorem stop_iteration_iff_cursor_at_end:
  assumes "idx_list st = Some il"
  shows "(fst (Batch_next st) = Inl StopIteration \<longleftrightarrow> int (length il) \<le> curidx st) \<and>
     (int (length il) \<le> curidx st \<longrightarrow> Batch_next st = (Inl StopIteration, st)) \<and>
     (in_pass st \<and> curidx st < int (length il) \<longrightarrow>
        (\<exists>b. Batch_next st = (Inr b, st\<lparr>curidx := curidx st + endidx_of st il\<rparr>)))"
proof -
  have 1: "fst (Batch_next st) = Inl StopIteration \<longleftrightarrow> int (length il) \<le> curidx st"
    by (rule stop_iff [OF assms])
  have 2: "int (length il) \<le> curidx st \<longrightarrow> Batch_next st = (Inl StopIteration, st)"
    using assms by (simp add: Batch_next_def)
  have 3: "in_pass st \<and> curidx st < int (length il) \<longrightarrow>
        (\<exists>b. Batch_next st = (Inr b, st\<lparr>curidx := curidx st + endidx_of st il\<rparr>))"
  proof
    assume a: "in_pass st \<and> curidx st < int (length il)"
    then have "in_pass st" "curidx st < int (length il)" by simp_all
    from step_wf [OF this(1) assms this(2)]
    show "\<exists>b. Batch_next st = (Inr b, st\<lparr>curidx := curidx st + endidx_of st il\<rparr>)" by blast
  qed
  from 1 2 3 show ?thesis by blast
qed

text \<open>The example: the state after the second step is exhausted, the first step returns a batch.\<close>

theorem stop_iteration_iff_cursor_at_end_witness:
  "idx_list exhausted = Some [0, 1, 2] \<and> int (length [0, 1, 2 :: int]) \<le> curidx exhausted \<and>
   Batch_next exhausted = (Inl StopIteration, exhausted) \<and>
   idx_list first_step = Some [0, 1, 2] \<and> in_pass first_step \<and>
   curidx first_step < int (length [0, 1, 2 :: int]) \<and>
   (\<exists>b. Batch_next first_step =
      (Inr b, first_step\<lparr>curidx := curidx first_step + endidx_of first_step [0, 1, 2]\<rparr>))"
proof -
  have h1: "idx_list exhausted = Some [0, 1, 2]" by code_simp
  have h2: "int (length [0, 1, 2 :: int]) \<le> curidx exhausted" by code_simp
  have h3: "idx_list first_step = Some [0, 1, 2]" by code_simp
  have h4: "in_pass first_step" by code_simp
  have h5: "curidx first_step < int (length [0, 1, 2 :: int])" by code_simp
  from stop_iteration_iff_cursor_at_end [OF h1] stop_iteration_iff_cursor_at_end [OF h3]
    h1 h2 h3 h4 h5 show ?thesis by blast
qed

section \<open>The advance of the cursor\<close>

text \<open>
  Claim C2, as amended. A successful step advances the cursor by adding \<^verbatim>\<open>endidx\<close>, the absolute
  end of the slice, where the corrected iterator sets it to \<^verbatim>\<open>endidx\<close>. From cursor 0 the two
  agree. Whenever a step starts with a nonzero cursor, the new cursor lies beyond the end of the
  slice, and the positions of the ordering between the end of the slice and the new cursor are
  never reached again: every later step of the pass starts beyond them. There is such a position
  exactly when the slice ends before the end of the ordering.
\<close>

theorem cursor_overshoots_by_adding_endidx:
  assumes "idx_list st = Some il" and "1 \<le> batch_size st" and "0 \<le> curidx st"
    and "fst (Batch_next st) = Inr b"
  shows "snd (Batch_next st) = st\<lparr>curidx := curidx st + endidx_of st il\<rparr> \<and>
     snd (Batch_next_fixed st) = st\<lparr>curidx := endidx_of st il\<rparr> \<and>
     (curidx st = 0 \<longrightarrow>
        curidx (snd (Batch_next st)) = endidx_of st il \<and> skipped_positions st = []) \<and>
     (0 < curidx st \<longrightarrow>
        endidx_of st il < curidx (snd (Batch_next st)) \<and>
        (skipped_positions st \<noteq> [] \<longleftrightarrow> endidx_of st il < int (length il)) \<and>
        (\<forall>s. rtranclp steps_to (snd (Batch_next st)) s \<longrightarrow>
           (\<forall>p \<in> set (skipped_positions st). p < curidx s)))"
proof -
  note n = next_state [OF assms(1,4)]
  let ?e = "endidx_of st il"
  let ?s = "snd (Batch_next st)"
  have e: "curidx st < ?e" using n(2) assms(2) by (simp add: endidx_of_def)
  have sk: "skipped_positions st = py_range ?e (min (curidx st + ?e) (int (length il)))"
    using assms(1) by (simp add: skipped_positions_def)
  have 1: "?s = st\<lparr>curidx := curidx st + ?e\<rparr>" by (rule n(1))
  have 2: "snd (Batch_next_fixed st) = st\<lparr>curidx := ?e\<rparr>" by (rule fixed_state [OF assms(1,4)])
  have 3: "curidx st = 0 \<longrightarrow> curidx ?s = ?e \<and> skipped_positions st = []"
    using 1 sk by (simp add: py_range_def)
  have 4: "0 < curidx st \<longrightarrow>
        ?e < curidx ?s \<and>
        (skipped_positions st \<noteq> [] \<longleftrightarrow> ?e < int (length il)) \<and>
        (\<forall>s. rtranclp steps_to ?s s \<longrightarrow> (\<forall>p \<in> set (skipped_positions st). p < curidx s))"
  proof
    assume pos: "0 < curidx st"
    have a: "?e < curidx ?s" using 1 pos by simp
    have b: "skipped_positions st \<noteq> [] \<longleftrightarrow> ?e < int (length il)"
      using sk pos by (auto simp add: py_range_def)
    have c: "\<forall>s. rtranclp steps_to ?s s \<longrightarrow> (\<forall>p \<in> set (skipped_positions st). p < curidx s)"
    proof (intro allI impI ballI)
      fix s p assume r: "rtranclp steps_to ?s s" and p: "p \<in> set (skipped_positions st)"
      have "0 \<le> curidx ?s" "1 \<le> batch_size ?s" using 1 e assms(2,3) by simp_all
      from steps_mono [OF r this] have "curidx ?s \<le> curidx s" by simp
      moreover from p sk have "p < curidx st + ?e" by (simp add: set_py_range)
      ultimately show "p < curidx s" using 1 by simp
    qed
    from a b c show "?e < curidx ?s \<and>
        (skipped_positions st \<noteq> [] \<longleftrightarrow> ?e < int (length il)) \<and>
        (\<forall>s. rtranclp steps_to ?s s \<longrightarrow> (\<forall>p \<in> set (skipped_positions st). p < curidx s))"
      by blast
  qed
  from 1 2 3 4 show ?thesis by blast
qed

text \<open>With batch size 1 the step from cursor 1 skips position 2; the step from cursor 0 skips
  nothing.\<close>

theorem cursor_overshoots_by_adding_endidx_witness:
  "idx_list single_second = Some [0, 1, 2] \<and> 1 \<le> batch_size single_second \<and>
   0 \<le> curidx single_second \<and>
   fst (Batch_next single_second) =
     Inr ([(''text'', Matrix CPU [[4, 5, 2, 6, 7, 8, 9]]), (''text_origin_len'', Vector CPU [7])],
          [(''label'', Matrix CPU [[1]])]) \<and>
   0 < curidx single_second \<and>
   endidx_of single_second [0, 1, 2] = 2 \<and>
   endidx_of single_second [0, 1, 2] < curidx (snd (Batch_next single_second)) \<and>
   skipped_positions single_second = [2] \<and>
   2 < curidx (snd (Batch_next single_second)) \<and>
   idx_list first_step = Some [0, 1, 2] \<and> 1 \<le> batch_size first_step \<and> curidx first_step = 0 \<and>
   fst (Batch_next first_step) =
     Inr ([(''text'', Matrix CPU [[0, 1, 2, 3, 0, 0, 0], [4, 5, 2, 6, 7, 8, 9]]),
           (''text_origin_len'', Vector CPU [4, 7])],
          [(''label'', Matrix CPU [[0], [1]])]) \<and>
   curidx (snd (Batch_next first_step)) = endidx_of first_step [0, 1, 2] \<and>
   skipped_positions first_step = []"
proof -
  have h1: "idx_list single_second = Some [0, 1, 2]" by code_simp
  have h2: "1 \<le> batch_size single_second" by code_simp
  have h3: "0 \<le> curidx single_second" by code_simp
  have h4: "fst (Batch_next single_second) =
     Inr ([(''text'', Matrix CPU [[4, 5, 2, 6, 7, 8, 9]]), (''text_origin_len'', Vector CPU [7])],
          [(''label'', Matrix CPU [[1]])])" by code_simp
  have h5: "0 < curidx single_second" by code_simp
  have e1: "endidx_of single_second [0, 1, 2] = 2" by code_simp
  have e2: "skipped_positions single_second = [2]" by code_simp
  have g1: "idx_list first_step = Some [0, 1, 2]" by code_simp
  have g2: "1 \<le> batch_size first_step" by code_simp
  have g3: "curidx first_step = 0" by code_simp
  have g4: "fst (Batch_next first_step) =
     Inr ([(''text'', Matrix CPU [[0, 1, 2, 3, 0, 0, 0], [4, 5, 2, 6, 7, 8, 9]]),
           (''text_origin_len'', Vector CPU [4, 7])],
          [(''label'', Matrix CPU [[0], [1]])])" by code_simp
  have g5: "0 \<le> curidx first_step" using g3 by simp
  note a = cursor_overshoots_by_adding_endidx [OF h1 h2 h3 h4]
  note b = cursor_overshoots_by_adding_endidx [OF g1 g2 g5 g4]
  from a h5 have a1: "endidx_of single_second [0, 1, 2] < curidx (snd (Batch_next single_second))"
    by blast
  from a h5 have a2: "\<forall>p \<in> set (skipped_positions single_second).
      p < curidx (snd (Batch_next single_second))"
    by blast
  from b g3 have b1: "curidx (snd (Batch_next first_step)) = endidx_of first_step [0, 1, 2]"
    "skipped_positions first_step = []"
    by blast+
  from a2 e2 have a3: "2 < curidx (snd (Batch_next single_second))" by simp
  from h1 h2 h3 h4 h5 e1 e2 a1 a3 g1 g2 g3 g4 b1 show ?thesis by blast
qed

text \<open>
  As the claim was stated, data is skipped on every batch after the first. In the example with
  batch size 2 the second step starts at cursor 2 and moves the cursor to 5, beyond the end of
  its slice, but the slice ends the ordering: no position is skipped, and the pass is the
  pass of the corrected iterator.
\<close>

theorem overshoot_without_skipped_data:
  "0 < curidx second_step \<and>
   fst (Batch_next second_step) =
     Inr ([(''text'', Matrix CPU [[10, 11]]), (''text_origin_len'', Vector CPU [2])],
          [(''label'', Matrix CPU [[0]])]) \<and>
   endidx_of second_step [0, 1, 2] = 3 \<and>
   curidx (snd (Batch_next second_step)) = 5 \<and>
   skipped_positions second_step = [] \<and>
   run_pass example_iterator = run_pass_fixed example_iterator"
  by code_simp

section \<open>Small datasets\<close>

text \<open>
  Claim C9. On admitted inputs with at most twice as many instances as the batch size, a pass of
  the iterator as written (\<^verbatim>\<open>curidx += endidx\<close>) yields exactly the batches of a pass of the
  corrected iterator (\<^verbatim>\<open>curidx = endidx\<close>): \<open>ceil(N/B)\<close> batches, one for each of the
  consecutive ranges of positions that together are \<open>0, \<dots>, N - 1\<close>, each once, which are the
  sampled indices. Every batch holds the instances at the positions of its range, their padded
  rows and their true lengths, and these instances together are the dataset, each instance once.
  So the two passes can differ only when \<open>N > 2 * B\<close>.
\<close>

theorem small_dataset_hides_cursor_defect:
  assumes wf: "well_formed st" and small: "int (length (dataset st)) \<le> 2 * batch_size st"
  shows "run_pass st = run_pass_fixed st \<and>
     (\<exists>bs chunks. run_pass st = Some (Inr bs) \<and>
        int (length bs) = \<lceil>real_of_int (int (length (dataset st))) / real_of_int (batch_size st)\<rceil> \<and>
        map Inr bs =
          map (\<lambda>(c, e). build_batch (dataset st) (use_cuda st) (get_length (dataset st)) c e) chunks \<and>
        list_all2 (\<lambda>(c, e) b. holds_instances (dataset st) (use_cuda st) (py_slice (dataset st) c e) b)
          chunks bs \<and>
        concat (map (\<lambda>(c, e). py_slice (dataset st) c e) chunks) = dataset st \<and>
        concat (map (\<lambda>(c, e). py_range c e) chunks) = py_range 0 (int (length (dataset st))) \<and>
        set (py_range 0 (int (length (dataset st)))) =
          set (fst (sampler st (sampler_state st) (dataset st))))"
proof -
  let ?s0 = "Batch_iter st"
  let ?il = "fst (sampler st (sampler_state st) (dataset st))"
  let ?N = "int (length (dataset st))"
  let ?B = "batch_size st"
  let ?build = "\<lambda>(c, e). build_batch (dataset st) (use_cuda st) (get_length (dataset st)) c e"
  let ?holds = "\<lambda>(c, e) b. holds_instances (dataset st) (use_cuda st) (py_slice (dataset st) c e) b"
  let ?sl = "\<lambda>(c, e). py_slice (dataset st) c e"
  have p0: "in_pass ?s0" by (rule in_pass_iter [OF wf])
  have il0: "idx_list ?s0 = Some ?il" and c0: "curidx ?s0 = 0"
    and same: "dataset ?s0 = dataset st" "batch_size ?s0 = ?B" "use_cuda ?s0 = use_cuda st"
    by (simp_all add: Batch_iter_def case_prod_beta)
  from wf have B: "1 \<le> ?B" and v: "valid_ordering ?il (dataset st)"
    by (simp_all add: well_formed_def)
  from v have len: "int (length ?il) = ?N" by (simp add: valid_ordering_length)
  from v have cover: "set (py_range 0 ?N) = set ?il" by (simp add: valid_ordering_def)
  consider (empty) "?N = 0" | (one) "0 < ?N" "?N \<le> ?B" | (two) "?B < ?N" by linarith
  then show ?thesis
  proof cases
    case empty
    with il0 c0 len have "fst (Batch_next ?s0) = Inl StopIteration"
      and "fst (Batch_next_fixed ?s0) = Inl StopIteration"
      by (simp_all add: stop_iff fixed_stop)
    then have r: "run_pass st = Some (Inr [])" "run_pass_fixed st = Some (Inr [])"
      by (simp_all add: run_pass_def run_pass_fixed_def drain_stop)
    have "int (length ([] :: minibatch list)) = \<lceil>real_of_int ?N / real_of_int ?B\<rceil>"
      using empty by simp
    moreover have "map Inr ([] :: minibatch list) = map ?build []" by simp
    moreover have "list_all2 ?holds [] ([] :: minibatch list)" by simp
    moreover have "concat (map ?sl []) = dataset st" using empty by simp
    moreover have "concat (map (\<lambda>(c, e). py_range c e) []) = py_range 0 ?N"
      using empty by (simp add: py_range_def)
    ultimately have ex: "\<exists>bs chunks. run_pass st = Some (Inr bs) \<and>
        int (length bs) = \<lceil>real_of_int ?N / real_of_int ?B\<rceil> \<and>
        map Inr bs = map ?build chunks \<and> list_all2 ?holds chunks bs \<and>
        concat (map ?sl chunks) = dataset st \<and>
        concat (map (\<lambda>(c, e). py_range c e) chunks) = py_range 0 ?N \<and>
        set (py_range 0 ?N) = set ?il"
      using r(1) cover by (intro exI [of _ "[]"]) simp
    from r have "run_pass st = run_pass_fixed st" by simp
    with ex show ?thesis by (intro conjI)
  next
    case one
    have lt: "curidx ?s0 < int (length ?il)" using one c0 len by simp
    have e0: "endidx_of ?s0 ?il = ?N" using one c0 len same by (simp add: endidx_of_def)
    from step_holds [OF p0 il0 lt] obtain b where b:
      "Batch_next ?s0 = (Inr b, ?s0\<lparr>curidx := curidx ?s0 + endidx_of ?s0 ?il\<rparr>)"
      "Batch_next_fixed ?s0 = (Inr b, ?s0\<lparr>curidx := endidx_of ?s0 ?il\<rparr>)"
      "build_batch (dataset ?s0) (use_cuda ?s0) (get_length (dataset ?s0)) (curidx ?s0)
         (endidx_of ?s0 ?il) = Inr b"
      "holds_instances (dataset ?s0) (use_cuda ?s0)
         (py_slice (dataset ?s0) (curidx ?s0) (endidx_of ?s0 ?il)) b"
      by blast
    let ?s1 = "?s0\<lparr>curidx := ?N\<rparr>"
    have n1: "Batch_next ?s0 = (Inr b, ?s1)" and f1: "Batch_next_fixed ?s0 = (Inr b, ?s1)"
      using b(1,2) e0 c0 by simp_all
    have il1: "idx_list ?s1 = Some ?il" using il0 by simp
    have "int (length ?il) \<le> curidx ?s1" using len by simp
    with il1 have s1: "fst (Batch_next ?s1) = Inl StopIteration"
      "fst (Batch_next_fixed ?s1) = Inl StopIteration"
      by (simp_all only: stop_iff fixed_stop)
    have "drain Batch_next ?s0 [] = drain Batch_next ?s1 [b]"
      using n1 by (simp add: drain_step [of Batch_next ?s0 b "[]"])
    with s1(1) have r1: "run_pass st = Some (Inr [b])"
      by (simp add: run_pass_def drain_stop)
    have "drain Batch_next_fixed ?s0 [] = drain Batch_next_fixed ?s1 [b]"
      using f1 by (simp add: drain_step [of Batch_next_fixed ?s0 b "[]"])
    with s1(2) have r2: "run_pass_fixed st = Some (Inr [b])"
      by (simp add: run_pass_fixed_def drain_stop)
    have "int (length [b]) = \<lceil>real_of_int ?N / real_of_int ?B\<rceil>"
      using ceiling_one_chunk [OF one] by simp
    moreover have "map Inr [b] = map ?build [(0, ?N)]"
      using b(3) e0 c0 same by simp
    moreover have "list_all2 ?holds [(0, ?N)] [b]"
      using b(4) e0 c0 same by simp
    moreover have "concat (map ?sl [(0, ?N)]) = dataset st"
      by (simp add: py_slice_all)
    moreover have "concat (map (\<lambda>(c, e). py_range c e) [(0, ?N)]) = py_range 0 ?N"
      by simp
    ultimately have ex: "\<exists>bs chunks. run_pass st = Some (Inr bs) \<and>
        int (length bs) = \<lceil>real_of_int ?N / real_of_int ?B\<rceil> \<and>
        map Inr bs = map ?build chunks \<and> list_all2 ?holds chunks bs \<and>
        concat (map ?sl chunks) = dataset st \<and>
        concat (map (\<lambda>(c, e). py_range c e) chunks) = py_range 0 ?N \<and>
        set (py_range 0 ?N) = set ?il"
      using r1 cover by (intro exI [of _ "[b]"] exI [of _ "[(0, ?N)]"]) blast
    from r1 r2 have "run_pass st = run_pass_fixed st" by simp
    with ex show ?thesis by (intro conjI)
  next
    case two
    from two B have pos: "0 < ?N" by linarith
    have lt: "curidx ?s0 < int (length ?il)" unfolding c0 len by (rule pos)
    have e0: "endidx_of ?s0 ?il = ?B" using two c0 len same by (simp add: endidx_of_def)
    from step_holds [OF p0 il0 lt] obtain b1 where b1:
      "Batch_next ?s0 = (Inr b1, ?s0\<lparr>curidx := curidx ?s0 + endidx_of ?s0 ?il\<rparr>)"
      "Batch_next_fixed ?s0 = (Inr b1, ?s0\<lparr>curidx := endidx_of ?s0 ?il\<rparr>)"
      "build_batch (dataset ?s0) (use_cuda ?s0) (get_length (dataset ?s0)) (curidx ?s0)
         (endidx_of ?s0 ?il) = Inr b1"
      "holds_instances (dataset ?s0) (use_cuda ?s0)
         (py_slice (dataset ?s0) (curidx ?s0) (endidx_of ?s0 ?il)) b1"
      by blast
    let ?s1 = "?s0\<lparr>curidx := ?B\<rparr>"
    have n1: "Batch_next ?s0 = (Inr b1, ?s1)" and f1: "Batch_next_fixed ?s0 = (Inr b1, ?s1)"
      using b1(1,2) e0 c0 by simp_all
    have p1: "in_pass ?s1" using in_pass_step [OF p0] n1 by simp
    have il1: "idx_list ?s1 = Some ?il" using il0 by simp
    have lt1: "curidx ?s1 < int (length ?il)" using two len by simp
    have e1: "endidx_of ?s1 ?il = ?N" using two small len same by (simp add: endidx_of_def)
    from step_holds [OF p1 il1 lt1] obtain b2 where b2:
      "Batch_next ?s1 = (Inr b2, ?s1\<lparr>curidx := curidx ?s1 + endidx_of ?s1 ?il\<rparr>)"
      "Batch_next_fixed ?s1 = (Inr b2, ?s1\<lparr>curidx := endidx_of ?s1 ?il\<rparr>)"
      "build_batch (dataset ?s1) (use_cuda ?s1) (get_length (dataset ?s1)) (curidx ?s1)
         (endidx_of ?s1 ?il) = Inr b2"
      "holds_instances (dataset ?s1) (use_cuda ?s1)
         (py_slice (dataset ?s1) (curidx ?s1) (endidx_of ?s1 ?il)) b2"
      by blast
    let ?s2 = "?s1\<lparr>curidx := ?B + ?N\<rparr>"
    let ?s2' = "?s1\<lparr>curidx := ?N\<rparr>"
    have n2: "Batch_next ?s1 = (Inr b2, ?s2)" and f2: "Batch_next_fixed ?s1 = (Inr b2, ?s2')"
      using b2(1,2) e1 by simp_all
    have "idx_list ?s2 = Some ?il" "int (length ?il) \<le> curidx ?s2" using il0 len B by simp_all
    then have s2: "fst (Batch_next ?s2) = Inl StopIteration" by (simp only: stop_iff)
    have "idx_list ?s2' = Some ?il" "int (length ?il) \<le> curidx ?s2'" using il0 len by simp_all
    then have s2': "fst (Batch_next_fixed ?s2') = Inl StopIteration" by (simp only: fixed_stop)
    have "drain Batch_next ?s0 [] = drain Batch_next ?s1 [b1]"
      using n1 by (simp add: drain_step [of Batch_next ?s0 b1 "[]"])
    also have "\<dots> = drain Batch_next ?s2 [b2, b1]"
      using n2 by (simp add: drain_step [of Batch_next ?s1 b2 "[b1]"])
    finally have r1: "run_pass st = Some (Inr [b1, b2])"
      using s2 by (simp add: run_pass_def drain_stop)
    have "drain Batch_next_fixed ?s0 [] = drain Batch_next_fixed ?s1 [b1]"
      using f1 by (simp add: drain_step [of Batch_next_fixed ?s0 b1 "[]"])
    also have "\<dots> = drain Batch_next_fixed ?s2' [b2, b1]"
      using f2 by (simp add: drain_step [of Batch_next_fixed ?s1 b2 "[b1]"])
    finally have r2: "run_pass_fixed st = Some (Inr [b1, b2])"
      using s2' by (simp add: run_pass_fixed_def drain_stop)
    have "int (length [b1, b2]) = \<lceil>real_of_int ?N / real_of_int ?B\<rceil>"
      using ceiling_two_chunks [of ?B ?N] B two small by simp
    moreover have "map Inr [b1, b2] = map ?build [(0, ?B), (?B, ?N)]"
      using b1(3) b2(3) e0 e1 c0 same by simp
    moreover have "list_all2 ?holds [(0, ?B), (?B, ?N)] [b1, b2]"
      using b1(4) b2(4) e0 e1 c0 same by simp
    moreover have "concat (map ?sl [(0, ?B), (?B, ?N)]) = dataset st"
      using py_slice_split [of ?B "dataset st"] B two by simp
    moreover have "concat (map (\<lambda>(c, e). py_range c e) [(0, ?B), (?B, ?N)]) = py_range 0 ?N"
      using py_range_append [of 0 ?B ?N] B two by simp
    ultimately have ex: "\<exists>bs chunks. run_pass st = Some (Inr bs) \<and>
        int (length bs) = \<lceil>real_of_int ?N / real_of_int ?B\<rceil> \<and>
        map Inr bs = map ?build chunks \<and> list_all2 ?holds chunks bs \<and>
        concat (map ?sl chunks) = dataset st \<and>
        concat (map (\<lambda>(c, e). py_range c e) chunks) = py_range 0 ?N \<and>
        set (py_range 0 ?N) = set ?il"
      using r1 cover by (intro exI [of _ "[b1, b2]"] exI [of _ "[(0, ?B), (?B, ?N)]"]) blast
    from r1 r2 have "run_pass st = run_pass_fixed st" by simp
    with ex show ?thesis by (intro conjI)
  qed
qed

text \<open>The example has 3 instances and batch size 2.\<close>

theorem small_dataset_hides_cursor_defect_witness:
  "well_formed example_iterator \<and>
   int (length (dataset example_iterator)) \<le> 2 * batch_size example_iterator \<and>
   run_pass example_iterator = run_pass_fixed example_iterator \<and>
   run_pass example_iterator =
     Some (Inr
       [([(''text'', Matrix CPU [[0, 1, 2, 3, 0, 0, 0], [4, 5, 2, 6, 7, 8, 9]]),
          (''text_origin_len'', Vector CPU [4, 7])],
         [(''label'', Matrix CPU [[0], [1]])]),
        ([(''text'', Matrix CPU [[10, 11]]), (''text_origin_len'', Vector CPU [2])],
         [(''label'', Matrix CPU [[0]])])]) \<and>
   (\<exists>bs chunks. run_pass example_iterator = Some (Inr bs) \<and>
      int (length bs) =
        \<lceil>real_of_int (int (length (dataset example_iterator))) /
          real_of_int (batch_size example_iterator)\<rceil> \<and>
      map Inr bs =
        map (\<lambda>(c, e). build_batch (dataset example_iterator) (use_cuda example_iterator)
               (get_length (dataset example_iterator)) c e) chunks \<and>
      list_all2
        (\<lambda>(c, e) b. holds_instances (dataset example_iterator) (use_cuda example_iterator)
           (py_slice (dataset example_iterator) c e) b) chunks bs \<and>
      concat (map (\<lambda>(c, e). py_slice (dataset example_iterator) c e) chunks) =
        dataset example_iterator \<and>
      concat (map (\<lambda>(c, e). py_range c e) chunks) =
        py_range 0 (int (length (dataset example_iterator))) \<and>
      set (py_range 0 (int (length (dataset example_iterator)))) =
        set (fst (sampler example_iterator (sampler_state example_iterator)
          (dataset example_iterator))))"
proof -
  have h1: "well_formed example_iterator" by code_simp
  have h2: "int (length (dataset example_iterator)) \<le> 2 * batch_size example_iterator"
    by code_simp
  have e: "run_pass example_iterator =
     Some (Inr
       [([(''text'', Matrix CPU [[0, 1, 2, 3, 0, 0, 0], [4, 5, 2, 6, 7, 8, 9]]),
          (''text_origin_len'', Vector CPU [4, 7])],
         [(''label'', Matrix CPU [[0], [1]])]),
        ([(''text'', Matrix CPU [[10, 11]]), (''text_origin_len'', Vector CPU [2])],
         [(''label'', Matrix CPU [[0]])])])"
    by code_simp
  from small_dataset_hides_cursor_defect [OF h1 h2] h1 h2 e show ?thesis by blast
qed

section \<open>Termination of a pass\<close>

text \<open>
  Claim C10. With a batch size of at least 1 a pass always ends, whatever the dataset and the
  ordering: a successful step starts with the cursor below the length of the ordering, computes
  \<^verbatim>\<open>endidx\<close> strictly greater than the cursor, and increases the cursor by at least
  \<^verbatim>\<open>endidx - curidx\<close>. On admitted inputs the pass ends with \<^verbatim>\<open>StopIteration\<close>, not with an
  error. An empty ordering yields no batch.
\<close>

theorem pass_terminates:
  assumes "1 \<le> batch_size st"
  shows "(\<exists>r. run_pass st = Some r) \<and>
     (fst (sampler st (sampler_state st) (dataset st)) = [] \<longrightarrow> run_pass st = Some (Inr [])) \<and>
     (well_formed st \<longrightarrow> (\<exists>bs. run_pass st = Some (Inr bs))) \<and>
     (\<forall>s il b. idx_list s = Some il \<and> 0 \<le> curidx s \<and> 1 \<le> batch_size s \<and>
          fst (Batch_next s) = Inr b \<longrightarrow>
        curidx s < int (length il) \<and> curidx s < endidx_of s il \<and>
        curidx s + (endidx_of s il - curidx s) \<le> curidx (snd (Batch_next s)))"
proof -
  let ?s = "Batch_iter st"
  let ?il = "fst (sampler st (sampler_state st) (dataset st))"
  have il: "idx_list ?s = Some ?il" and c: "curidx ?s = 0" and b: "batch_size ?s = batch_size st"
    by (simp_all add: Batch_iter_def case_prod_beta)
  have 1: "\<exists>r. run_pass st = Some r"
    unfolding run_pass_def using drain_terminates [OF il] c b assms by simp
  have 2: "?il = [] \<longrightarrow> run_pass st = Some (Inr [])"
  proof
    assume "?il = []"
    with il c have "fst (Batch_next ?s) = Inl StopIteration" by (simp add: stop_iff)
    then show "run_pass st = Some (Inr [])" by (simp add: run_pass_def drain_stop)
  qed
  have 3: "well_formed st \<longrightarrow> (\<exists>bs. run_pass st = Some (Inr bs))"
    unfolding run_pass_def using drain_wf [OF in_pass_iter] by blast
  have 4: "\<forall>s il b. idx_list s = Some il \<and> 0 \<le> curidx s \<and> 1 \<le> batch_size s \<and>
          fst (Batch_next s) = Inr b \<longrightarrow>
        curidx s < int (length il) \<and> curidx s < endidx_of s il \<and>
        curidx s + (endidx_of s il - curidx s) \<le> curidx (snd (Batch_next s))"
  proof (intro allI impI)
    fix s il b
    assume a: "idx_list s = Some il \<and> 0 \<le> curidx s \<and> 1 \<le> batch_size s \<and>
          fst (Batch_next s) = Inr b"
    then have h: "idx_list s = Some il" "0 \<le> curidx s" "1 \<le> batch_size s" "fst (Batch_next s) = Inr b"
      by simp_all
    note n = next_state [OF h(1) h(4)]
    have e: "curidx s < endidx_of s il" using n(2) h(3) by (simp add: endidx_of_def)
    show "curidx s < int (length il) \<and> curidx s < endidx_of s il \<and>
        curidx s + (endidx_of s il - curidx s) \<le> curidx (snd (Batch_next s))"
      using n e h(2) by simp
  qed
  from 1 2 3 4 show ?thesis by blast
qed

text \<open>The example, and the iterator over no instance.\<close>

theorem pass_terminates_witness:
  "1 \<le> batch_size example_iterator \<and> (\<exists>r. run_pass example_iterator = Some r) \<and>
   well_formed example_iterator \<and> (\<exists>bs. run_pass example_iterator = Some (Inr bs)) \<and>
   1 \<le> batch_size empty_iterator \<and>
   fst (sampler empty_iterator (sampler_state empty_iterator) (dataset empty_iterator)) = [] \<and>
   run_pass empty_iterator = Some (Inr []) \<and>
   idx_list first_step = Some [0, 1, 2] \<and> 0 \<le> curidx first_step \<and> 1 \<le> batch_size first_step \<and>
   fst (Batch_next first_step) =
     Inr ([(''text'', Matrix CPU [[0, 1, 2, 3, 0, 0, 0], [4, 5, 2, 6, 7, 8, 9]]),
           (''text_origin_len'', Vector CPU [4, 7])],
          [(''label'', Matrix CPU [[0], [1]])]) \<and>
   curidx first_step < endidx_of first_step [0, 1, 2] \<and>
   curidx first_step + (endidx_of first_step [0, 1, 2] - curidx first_step) \<le>
     curidx (snd (Batch_next first_step))"
proof -
  have h1: "1 \<le> batch_size example_iterator" by code_simp
  have h2: "well_formed example_iterator" by code_simp
  have h3: "1 \<le> batch_size empty_iterator" by code_simp
  have h4: "fst (sampler empty_iterator (sampler_state empty_iterator) (dataset empty_iterator)) = []"
    by code_simp
  have g1: "idx_list first_step = Some [0, 1, 2]" by code_simp
  have g2: "0 \<le> curidx first_step" by code_simp
  have g3: "1 \<le> batch_size first_step" by code_simp
  have g4: "fst (Batch_next first_step) =
     Inr ([(''text'', Matrix CPU [[0, 1, 2, 3, 0, 0, 0], [4, 5, 2, 6, 7, 8, 9]]),
           (''text_origin_len'', Vector CPU [4, 7])],
          [(''label'', Matrix CPU [[0], [1]])])" by code_simp
  note a = pass_terminates [OF h1]
  note b = pass_terminates [OF h3]
  from a have a1: "\<exists>r. run_pass example_iterator = Some r" by blast
  from a h2 have a2: "\<exists>bs. run_pass example_iterator = Some (Inr bs)" by blast
  from b h4 have b1: "run_pass empty_iterator = Some (Inr [])" by blast
  from a g1 g2 g3 g4 have a3: "curidx first_step < endidx_of first_step [0, 1, 2] \<and>
     curidx first_step + (endidx_of first_step [0, 1, 2] - curidx first_step) \<le>
       curidx (snd (Batch_next first_step))" by blast
  from h1 h2 h3 h4 g1 g2 g3 g4 a1 a2 b1 a3 show ?thesis by blast
qed

end
